theory Spec2Isabelle
  imports Main "HOL-Library.AList"
begin

section \<open>Board engine (package game)\<close>

text \<open>
  A board is the Go value \<^verbatim>\<open>[][]interface{}\<close>: a slice of rows, each a slice of cells.
  A cell is \<^verbatim>\<open>nil\<close> (\<open>None\<close>) or holds the identifier of the side that owns it, which
  is a Go string at every call site. Row 0 is the top row, row \<open>ROWS - 1\<close> the bottom row.
  Go's \<^verbatim>\<open>int\<close> is modelled by \<open>int\<close>: every index the code computes stays within a
  few units of the 6 by 7 grid, so no operation can wrap around.
\<close>

type_synonym cell = "string option"
type_synonym board = "cell list list"

definition ROWS :: int where
  "ROWS = 6"

definition COLS :: int where
  "COLS = 7"

definition WIN_LENGTH :: int where
  "WIN_LENGTH = 4"

record MoveResult =
  Success :: bool
  Message :: string
  Row :: int

record WinResult =
  Won :: bool
  Direction :: string

definition CreateBoard :: board where
  "CreateBoard = replicate (nat ROWS) (replicate (nat COLS) None)"

text \<open>
  \<open>getCell board row col\<close> is the Go expression \<^verbatim>\<open>board[row][col]\<close>. Go panics when an
  index is outside its slice; the panic is the value \<open>None\<close>, and every function that
  reads the board passes it on.
\<close>

definition getCell :: "board \<Rightarrow> int \<Rightarrow> int \<Rightarrow> cell option" where
  "getCell board row col =
     (if 0 \<le> row \<and> row < int (length board) then
        (if 0 \<le> col \<and> col < int (length (board ! nat row))
         then Some (board ! nat row ! nat col) else None)
      else None)"

text \<open>
  \<open>setCell board row col v\<close> is the assignment \<^verbatim>\<open>board[row][col] = v\<close>; the code only
  assigns a cell it has just read, so the indices are in range where it is used.
\<close>

definition setCell :: "board \<Rightarrow> int \<Rightarrow> int \<Rightarrow> cell \<Rightarrow> board" where
  "setCell board row col v = board[nat row := (board ! nat row)[nat col := v]]"

text \<open>
  The loop of \<^verbatim>\<open>MakeMove\<close>: \<^verbatim>\<open>for row := ROWS - 1; row >= 0; row--\<close>, with the row
  counter as the last argument. The in-place update of the board is returned as the new
  board.
\<close>

function dropLoop :: "board \<Rightarrow> int \<Rightarrow> string \<Rightarrow> int \<Rightarrow> (board \<times> MoveResult) option" where
  "dropLoop board column playerID row =
     (if row \<ge> 0 then
        (case getCell board row column of
           None \<Rightarrow> None
         | Some None \<Rightarrow>
             Some (setCell board row column (Some playerID),
                   \<lparr>Success = True, Message = [], Row = row\<rparr>)
         | Some (Some other) \<Rightarrow> dropLoop board column playerID (row - 1))
      else Some (board, \<lparr>Success = False, Message = ''Column is full'', Row = 0\<rparr>))"
  by pat_completeness auto
termination
  by (relation "measure (\<lambda>(board, column, playerID, row). nat (row + 1))") auto

definition MakeMove :: "board \<Rightarrow> int \<Rightarrow> string \<Rightarrow> (board \<times> MoveResult) option" where
  "MakeMove board column playerID =
     (if column < 0 \<or> column \<ge> COLS
      then Some (board, \<lparr>Success = False, Message = ''Invalid column'', Row = 0\<rparr>)
      else dropLoop board column playerID (ROWS - 1))"

subsection \<open>Shape of a board\<close>

definition wf_board :: "board \<Rightarrow> bool" where
  "wf_board board = (length board = nat ROWS \<and> list_all (\<lambda>r. length r = nat COLS) board)"

definition in_grid :: "int \<Rightarrow> int \<Rightarrow> bool" where
  "in_grid row col = (0 \<le> row \<and> row < ROWS \<and> 0 \<le> col \<and> col < COLS)"

text \<open>The content of a cell of a well-formed board, for positions inside the grid.\<close>

definition at :: "board \<Rightarrow> int \<Rightarrow> int \<Rightarrow> cell" where
  "at board row col = board ! nat row ! nat col"

subsection \<open>Notions used to state the properties of a drop\<close>

text \<open>
  A column is full when none of its cells is empty; its count is the number of occupied
  cells; gravity says that below an occupied cell every cell down to the bottom row is
  occupied; the lowest empty row of a column is the empty cell with the largest row index.
\<close>

definition column_full :: "board \<Rightarrow> int \<Rightarrow> bool" where
  "column_full board col = list_all (\<lambda>row. at board row col \<noteq> None) [0..ROWS - 1]"

definition colCount :: "board \<Rightarrow> int \<Rightarrow> nat" where
  "colCount board col = length (filter (\<lambda>row. at board row col \<noteq> None) [0..ROWS - 1])"

definition gravity :: "board \<Rightarrow> bool" where
  "gravity board =
     list_all (\<lambda>col. list_all (\<lambda>row. at board row col \<noteq> None \<longrightarrow> at board (row + 1) col \<noteq> None)
                 [0..ROWS - 2]) [0..COLS - 1]"

definition lowest_empty :: "board \<Rightarrow> int \<Rightarrow> int \<Rightarrow> bool" where
  "lowest_empty board col row =
     (0 \<le> row \<and> row < ROWS \<and> at board row col = None \<and>
      list_all (\<lambda>k. at board k col \<noteq> None) [row + 1..ROWS - 1])"

text \<open>
  A sequence of calls to \<^verbatim>\<open>MakeMove\<close> on one board, each with its column and side;
  the results are collected in order. \<open>landed col ds rs\<close> counts the drops into column
  \<open>col\<close> that succeeded.
\<close>

fun dropAll :: "board \<Rightarrow> (int \<times> string) list \<Rightarrow> (board \<times> MoveResult list) option" where
  "dropAll board [] = Some (board, [])"
| "dropAll board ((column, playerID) # ds) =
     (case MakeMove board column playerID of
        None \<Rightarrow> None
      | Some (board', r) \<Rightarrow>
          (case dropAll board' ds of
             None \<Rightarrow> None
           | Some (board'', rs) \<Rightarrow> Some (board'', r # rs)))"

definition landed :: "int \<Rightarrow> (int \<times> string) list \<Rightarrow> MoveResult list \<Rightarrow> nat" where
  "landed col ds rs = length (filter (\<lambda>(d, r). fst d = col \<and> Success r) (zip ds rs))"

subsection \<open>Win detection\<close>

text \<open>
  The two \<^verbatim>\<open>for\<close> loops of \<^verbatim>\<open>checkDirection\<close> have the same guard and body, the
  second with \<^verbatim>\<open>-=\<close> in place of \<^verbatim>\<open>+=\<close>: \<open>scanLoop\<close> is that loop, and the second
  one runs it with the negated step. Go evaluates \<^verbatim>\<open>board[row][col]\<close> only after the four
  range tests of the guard have passed. With a zero step and a matching cell the loop
  runs forever, so \<open>None\<close> stands for a call that does not return: it panics or loops.
\<close>

partial_function (option) scanLoop ::
  "board \<Rightarrow> int \<Rightarrow> int \<Rightarrow> int \<Rightarrow> int \<Rightarrow> string \<Rightarrow> int \<Rightarrow> int option"
where
  "scanLoop board row col deltaRow deltaCol playerID count =
     (if row \<ge> 0 \<and> row < ROWS \<and> col \<ge> 0 \<and> col < COLS then
        (case getCell board row col of
           None \<Rightarrow> None
         | Some cell \<Rightarrow>
             if cell = Some playerID
             then scanLoop board (row + deltaRow) (col + deltaCol) deltaRow deltaCol playerID
                    (count + 1)
             else Some count)
      else Some count)"

declare scanLoop.simps [code]

definition checkDirection ::
  "board \<Rightarrow> int \<Rightarrow> int \<Rightarrow> int \<Rightarrow> int \<Rightarrow> string \<Rightarrow> bool option" where
  "checkDirection board startRow startCol deltaRow deltaCol playerID =
     (case scanLoop board (startRow + deltaRow) (startCol + deltaCol) deltaRow deltaCol
             playerID 1 of
        None \<Rightarrow> None
      | Some count \<Rightarrow>
          (case scanLoop board (startRow - deltaRow) (startCol - deltaCol)
                  (- deltaRow) (- deltaCol) playerID count of
             None \<Rightarrow> None
           | Some count' \<Rightarrow> Some (count' \<ge> WIN_LENGTH)))"

definition CheckWin :: "board \<Rightarrow> int \<Rightarrow> int \<Rightarrow> WinResult option" where
  "CheckWin board row col =
     (case getCell board row col of
        None \<Rightarrow> None
      | Some None \<Rightarrow> Some \<lparr>Won = False, Direction = []\<rparr>
      | Some (Some playerID) \<Rightarrow>
          (case checkDirection board row col 0 1 playerID of
             None \<Rightarrow> None
           | Some True \<Rightarrow> Some \<lparr>Won = True, Direction = ''horizontal''\<rparr>
           | Some False \<Rightarrow>
          (case checkDirection board row col 1 0 playerID of
             None \<Rightarrow> None
           | Some True \<Rightarrow> Some \<lparr>Won = True, Direction = ''vertical''\<rparr>
           | Some False \<Rightarrow>
          (case checkDirection board row col 1 1 playerID of
             None \<Rightarrow> None
           | Some True \<Rightarrow> Some \<lparr>Won = True, Direction = ''diagonal''\<rparr>
           | Some False \<Rightarrow>
          (case checkDirection board row col 1 (- 1) playerID of
             None \<Rightarrow> None
           | Some True \<Rightarrow> Some \<lparr>Won = True, Direction = ''diagonal''\<rparr>
           | Some False \<Rightarrow> Some \<lparr>Won = False, Direction = []\<rparr>)))))"

text \<open>
  The property that \<^verbatim>\<open>CheckWin\<close> is meant to decide, stated on the board alone: along
  the axis with step \<open>(dr, dc)\<close> some window of four consecutive cells contains
  \<open>(row, col)\<close> (as its cell number \<open>s\<close>), lies in the grid, and holds the content of
  \<open>(row, col)\<close> in each of its cells. \<open>four_through\<close> says so for one of the four axes
  and a cell that is not empty.
\<close>

definition four_in_line :: "board \<Rightarrow> int \<Rightarrow> int \<Rightarrow> int \<Rightarrow> int \<Rightarrow> bool" where
  "four_in_line board row col dr dc =
     list_ex (\<lambda>s.
       list_all (\<lambda>k. in_grid (row + (k - s) * dr) (col + (k - s) * dc) \<and>
                    at board (row + (k - s) * dr) (col + (k - s) * dc) = at board row col)
         [0..3]) [0..3]"

definition four_through :: "board \<Rightarrow> int \<Rightarrow> int \<Rightarrow> bool" where
  "four_through board row col =
     (at board row col \<noteq> None \<and>
      (four_in_line board row col 0 1 \<or> four_in_line board row col 1 0 \<or>
       four_in_line board row col 1 1 \<or> four_in_line board row col 1 (- 1)))"

text \<open>
  \<open>streak board row col dr dc p n\<close>: the \<open>n\<close> cells that follow \<open>(row, col)\<close> in
  direction \<open>(dr, dc)\<close> are in the grid and belong to \<open>p\<close>.
\<close>

definition streak :: "board \<Rightarrow> int \<Rightarrow> int \<Rightarrow> int \<Rightarrow> int \<Rightarrow> string \<Rightarrow> int \<Rightarrow> bool" where
  "streak board row col dr dc p n =
     list_all (\<lambda>k. in_grid (row + k * dr) (col + k * dc) \<and>
                  at board (row + k * dr) (col + k * dc) = Some p) [1..n]"

subsection \<open>The static evaluator\<close>

text \<open>
  The scoring block at the end of \<^verbatim>\<open>evaluateLine\<close>, on the three counters of a window.
\<close>

definition lineScore :: "int \<Rightarrow> int \<Rightarrow> int \<Rightarrow> int" where
  "lineScore playerCount opponentCount emptyCount =
     (if opponentCount > 0 \<and> playerCount > 0 then 0
      else if playerCount = WIN_LENGTH then 10000
      else if opponentCount = WIN_LENGTH then - 10000
      else if opponentCount = WIN_LENGTH - 1 \<and> emptyCount = 1 then - 1000
      else if playerCount = WIN_LENGTH - 1 \<and> emptyCount = 1 then 1000
      else if playerCount = WIN_LENGTH - 2 \<and> emptyCount = 2 then 100
      else if opponentCount = WIN_LENGTH - 2 \<and> emptyCount = 2 then - 100
      else playerCount * 10 - opponentCount * 10)"

text \<open>
  The loop of \<^verbatim>\<open>evaluateLine\<close>, \<^verbatim>\<open>for i := 0; i < WIN_LENGTH; i++\<close>, with the loop
  counter and the three counters as arguments. A window that leaves the grid returns 0
  at once.
\<close>

function lineLoop ::
  "board \<Rightarrow> int \<Rightarrow> int \<Rightarrow> int \<Rightarrow> int \<Rightarrow> string \<Rightarrow> string \<Rightarrow> int \<Rightarrow> int \<Rightarrow> int \<Rightarrow> int \<Rightarrow> int option"
where
  "lineLoop board startRow startCol deltaRow deltaCol playerID opponentID i
            playerCount opponentCount emptyCount =
     (if i < WIN_LENGTH then
        (let row = startRow + i * deltaRow; col = startCol + i * deltaCol in
         if row < 0 \<or> row \<ge> ROWS \<or> col < 0 \<or> col \<ge> COLS then Some 0
         else
           (case getCell board row col of
              None \<Rightarrow> None
            | Some cell \<Rightarrow>
                if cell = Some playerID then
                  lineLoop board startRow startCol deltaRow deltaCol playerID opponentID (i + 1)
                    (playerCount + 1) opponentCount emptyCount
                else if cell = Some opponentID then
                  lineLoop board startRow startCol deltaRow deltaCol playerID opponentID (i + 1)
                    playerCount (opponentCount + 1) emptyCount
                else
                  lineLoop board startRow startCol deltaRow deltaCol playerID opponentID (i + 1)
                    playerCount opponentCount (emptyCount + 1)))
      else Some (lineScore playerCount opponentCount emptyCount))"
  by pat_completeness auto
termination
  by (relation "measure (\<lambda>(board, startRow, startCol, deltaRow, deltaCol, playerID, opponentID,
                           i, rest). nat (WIN_LENGTH - i))") auto

definition evaluateLine ::
  "board \<Rightarrow> int \<Rightarrow> int \<Rightarrow> int \<Rightarrow> int \<Rightarrow> string \<Rightarrow> string \<Rightarrow> int option" where
  "evaluateLine board startRow startCol deltaRow deltaCol playerID opponentID =
     lineLoop board startRow startCol deltaRow deltaCol playerID opponentID 0 0 0 0"

text \<open>
  The two nested loops of \<^verbatim>\<open>EvaluatePosition\<close>: the inner one over the columns of a
  row, the outer one over the rows, with the running score as the last argument.
\<close>

function scoreCols :: "board \<Rightarrow> string \<Rightarrow> string \<Rightarrow> int \<Rightarrow> int \<Rightarrow> int \<Rightarrow> int option" where
  "scoreCols board playerID opponentID row col score =
     (if col < COLS then
        (case evaluateLine board row col 0 1 playerID opponentID of
           None \<Rightarrow> None
         | Some h \<Rightarrow>
        (case evaluateLine board row col 1 0 playerID opponentID of
           None \<Rightarrow> None
         | Some v \<Rightarrow>
        (case evaluateLine board row col 1 1 playerID opponentID of
           None \<Rightarrow> None
         | Some d \<Rightarrow>
        (case evaluateLine board row col 1 (- 1) playerID opponentID of
           None \<Rightarrow> None
         | Some e \<Rightarrow>
             scoreCols board playerID opponentID row (col + 1) (score + h + v + d + e)))))
      else Some score)"
  by pat_completeness auto
termination
  by (relation "measure (\<lambda>(board, playerID, opponentID, row, col, score). nat (COLS - col))") auto

function scoreRows :: "board \<Rightarrow> string \<Rightarrow> string \<Rightarrow> int \<Rightarrow> int \<Rightarrow> int option" where
  "scoreRows board playerID opponentID row score =
     (if row < ROWS then
        (case scoreCols board playerID opponentID row 0 score of
           None \<Rightarrow> None
         | Some score' \<Rightarrow> scoreRows board playerID opponentID (row + 1) score')
      else Some score)"
  by pat_completeness auto
termination
  by (relation "measure (\<lambda>(board, playerID, opponentID, row, score). nat (ROWS - row))") auto

definition EvaluatePosition :: "board \<Rightarrow> string \<Rightarrow> string \<Rightarrow> int option" where
  "EvaluatePosition board playerID opponentID = scoreRows board playerID opponentID 0 0"

subsection \<open>Full board and legal columns\<close>

function fullLoop :: "board \<Rightarrow> int \<Rightarrow> bool option" where
  "fullLoop board col =
     (if col < COLS then
        (case getCell board 0 col of
           None \<Rightarrow> None
         | Some None \<Rightarrow> Some False
         | Some (Some other) \<Rightarrow> fullLoop board (col + 1))
      else Some True)"
  by pat_completeness auto
termination
  by (relation "measure (\<lambda>(board, col). nat (COLS - col))") auto

definition IsBoardFull :: "board \<Rightarrow> bool option" where
  "IsBoardFull board = fullLoop board 0"

function validLoop :: "board \<Rightarrow> int \<Rightarrow> int list \<Rightarrow> int list option" where
  "validLoop board col validMoves =
     (if col < COLS then
        (case getCell board 0 col of
           None \<Rightarrow> None
         | Some None \<Rightarrow> validLoop board (col + 1) (validMoves @ [col])
         | Some (Some other) \<Rightarrow> validLoop board (col + 1) validMoves)
      else Some validMoves)"
  by pat_completeness auto
termination
  by (relation "measure (\<lambda>(board, col, validMoves). nat (COLS - col))") auto

definition GetValidMoves :: "board \<Rightarrow> int list option" where
  "GetValidMoves board = validLoop board 0 []"

section \<open>Matchmaking queue (package matchmaking)\<close>

text \<open>
  A \<^verbatim>\<open>*websocket.Conn\<close> is a pointer that the code only compares and tests against
  \<^verbatim>\<open>nil\<close>: it is a connection identity or \<open>None\<close>. A \<^verbatim>\<open>*time.Timer\<close> is a handle
  likewise. The two \<^verbatim>\<open>Player\<close> structs (of the packages game and matchmaking) share
  their first four fields; the one of matchmaking adds \<^verbatim>\<open>Connected\<close>.
\<close>

type_synonym conn = nat
type_synonym timer = nat

record Player =
  ID :: string
  Username :: string
  Conn :: "conn option"
  IsBot :: bool

record MatchPlayer = Player +
  Connected :: bool

text \<open>
  \<^verbatim>\<open>MatchResult\<close>: the fields \<^verbatim>\<open>Player1\<close> and \<^verbatim>\<open>Player2\<close> are pointers that stay
  \<^verbatim>\<open>nil\<close> when nothing was matched; they carry the prefix \<open>Match\<close> here because
  \<^verbatim>\<open>Game\<close> has fields of the same names.
\<close>

record MatchResult =
  Matched :: bool
  MatchPlayer1 :: "MatchPlayer option"
  MatchPlayer2 :: "MatchPlayer option"

text \<open>
  \<^verbatim>\<open>Service\<close>. The map \<^verbatim>\<open>botTimers\<close> is an association list from player identifier to
  timer handle, with one entry per key. Two components belong to the Go runtime rather
  than to the struct: \<open>stopped\<close>, the timers on which \<^verbatim>\<open>Stop\<close> was called, and
  \<open>nextTimer\<close>, the handle that the next \<^verbatim>\<open>time.AfterFunc\<close> returns. The field
  \<^verbatim>\<open>gameManager\<close> is not used by any method of the service.
\<close>

record Service =
  timeout :: int
  waitingPlayers :: "MatchPlayer list"
  botTimers :: "(string \<times> timer) list"
  stopped :: "timer set"
  nextTimer :: timer

definition NewService :: "int \<Rightarrow> Service" where
  "NewService t = \<lparr>timeout = t, waitingPlayers = [], botTimers = [], stopped = {}, nextTimer = 0\<rparr>"

definition deleteTimer :: "string \<Rightarrow> (string \<times> timer) list \<Rightarrow> (string \<times> timer) list" where
  "deleteTimer playerID timers = filter (\<lambda>(k, t). k \<noteq> playerID) timers"

definition AddPlayer :: "Service \<Rightarrow> MatchPlayer \<Rightarrow> Service \<times> MatchResult" where
  "AddPlayer s player =
     (let s1 = (case map_of (botTimers s) (ID player) of
                  Some t \<Rightarrow> s\<lparr>stopped := insert t (stopped s),
                              botTimers := deleteTimer (ID player) (botTimers s)\<rparr>
                | None \<Rightarrow> s)
      in case waitingPlayers s1 of
           opponent # rest \<Rightarrow>
             (s1\<lparr>waitingPlayers := rest\<rparr>,
              \<lparr>Matched = True, MatchPlayer1 = Some opponent, MatchPlayer2 = Some player\<rparr>)
         | [] \<Rightarrow>
             (s1\<lparr>waitingPlayers := waitingPlayers s1 @ [player]\<rparr>,
              \<lparr>Matched = False, MatchPlayer1 = None, MatchPlayer2 = None\<rparr>))"

definition findPlayerByID :: "Service \<Rightarrow> string \<Rightarrow> MatchPlayer option" where
  "findPlayerByID s playerID = find (\<lambda>p. ID p = playerID) (waitingPlayers s)"

definition isPlayerWaiting :: "Service \<Rightarrow> string \<Rightarrow> bool" where
  "isPlayerWaiting s playerID = (findPlayerByID s playerID \<noteq> None)"

definition removeWaitingPlayer :: "Service \<Rightarrow> string \<Rightarrow> Service" where
  "removeWaitingPlayer s playerID =
     s\<lparr>waitingPlayers := filter (\<lambda>p. ID p \<noteq> playerID) (waitingPlayers s)\<rparr>"

text \<open>
  \<^verbatim>\<open>RemovePlayer\<close>: the second loop ranges over the map and deletes the entries whose
  player is no longer found in the new waiting list, or is found with the connection
  that left. The test for one entry reads the waiting list only, so the order in which
  Go visits the map does not matter and the loop is a filter.
\<close>

definition RemovePlayer :: "Service \<Rightarrow> conn option \<Rightarrow> Service" where
  "RemovePlayer s c =
     (let s1 = s\<lparr>waitingPlayers := filter (\<lambda>p. Conn p \<noteq> c) (waitingPlayers s)\<rparr>;
          gone = (\<lambda>(playerID, t).
                    case findPlayerByID s1 playerID of
                      None \<Rightarrow> True
                    | Some player \<Rightarrow> Conn player = c)
      in s1\<lparr>stopped := stopped s1 \<union> snd ` set (filter gone (botTimers s1)),
             botTimers := filter (\<lambda>e. \<not> gone e) (botTimers s1)\<rparr>)"

text \<open>
  \<^verbatim>\<open>ScheduleBotMatch\<close> arms a timer and stores its handle. What the timer runs when it
  fires is \<open>botTimerFired\<close>, the closure passed to \<^verbatim>\<open>time.AfterFunc\<close>; it returns
  the new state and the list of calls of \<^verbatim>\<open>callback\<close> it made.
\<close>

definition ScheduleBotMatch :: "Service \<Rightarrow> MatchPlayer \<Rightarrow> Service" where
  "ScheduleBotMatch s player =
     s\<lparr>botTimers := (ID player, nextTimer s) # deleteTimer (ID player) (botTimers s),
       nextTimer := Suc (nextTimer s)\<rparr>"

definition botTimerFired :: "Service \<Rightarrow> MatchPlayer \<Rightarrow> Service \<times> MatchPlayer list" where
  "botTimerFired s player =
     (if isPlayerWaiting s (ID player) then
        (let s1 = removeWaitingPlayer s (ID player);
             s2 = s1\<lparr>botTimers := deleteTimer (ID player) (botTimers s1)\<rparr>
         in (s2, [player]))
      else (s, []))"

text \<open>The calls a client of the service can make, and a run of them in order.\<close>

datatype queue_op =
  OpAdd MatchPlayer
| OpRemove "conn option"
| OpSchedule MatchPlayer
| OpFire MatchPlayer

fun queue_step :: "Service \<Rightarrow> queue_op \<Rightarrow> Service" where
  "queue_step s (OpAdd p) = fst (AddPlayer s p)"
| "queue_step s (OpRemove c) = RemovePlayer s c"
| "queue_step s (OpSchedule p) = ScheduleBotMatch s p"
| "queue_step s (OpFire p) = fst (botTimerFired s p)"

definition queue_run :: "Service \<Rightarrow> queue_op list \<Rightarrow> Service" where
  "queue_run s ops = foldl queue_step s ops"

section \<open>Session manager (package game)\<close>

text \<open>
  Times are readings of \<^verbatim>\<open>time.Now()\<close>, passed to each operation as the argument
  \<open>now\<close>; an operation that reads the clock several times gets the same reading.
  The fields of \<^verbatim>\<open>Move\<close>, \<^verbatim>\<open>Game\<close>, \<^verbatim>\<open>GameMoveResult\<close> and \<^verbatim>\<open>RejoinResult\<close> whose Go
  names are taken by another record carry a distinguishing prefix or suffix. The two
  result structs have the same three fields and are one record here.
\<close>

type_synonym time = int

record Move =
  MovePlayer :: string
  Column :: int
  MoveRow :: int
  Timestamp :: time

record Game =
  GameID :: string
  Player1 :: Player
  Player2 :: Player
  Board :: board
  CurrentPlayer :: string
  Status :: string
  Winner :: string
  Moves :: "Move list"
  StartedAt :: time
  EndedAt :: "time option"
  LastMoveAt :: time

record ReconnectWindow =
  PlayerID :: string
  ExpiresAt :: time

record GameMoveResult =
  SuccessG :: bool
  MessageG :: string
  GameG :: "Game option"

type_synonym RejoinResult = GameMoveResult

text \<open>
  What the manager does to its collaborators is recorded as a trace: the rows it writes
  to the database, the analytics calls, the calls of the notification callback, the
  message written to an opponent's connection and the forfeiture timers it arms.
\<close>

datatype event =
  TrackGameStart Game
| TrackMove Game int int
| TrackGameEnd Game
| LeaderboardUpsert string int int int int
| GameInsert Game
| Notify Game
| PlayerDisconnected conn string
| ForfeitTimerArmed string string

text \<open>
  \<^verbatim>\<open>Manager\<close>: the two Go maps are association lists with one entry per key;
  \<open>analytics\<close> says whether \<^verbatim>\<open>analyticsService\<close> is not \<^verbatim>\<open>nil\<close>. A \<^verbatim>\<open>*Game\<close> is held
  by the map alone, so a mutation through the pointer is an update of the map entry.
\<close>

record Manager =
  games :: "(string \<times> Game) list"
  reconnectWindows :: "(string \<times> ReconnectWindow) list"
  analytics :: bool
  events :: "event list"

definition NewManager :: "bool \<Rightarrow> Manager" where
  "NewManager a = \<lparr>games = [], reconnectWindows = [], analytics = a, events = []\<rparr>"

definition emit :: "event list \<Rightarrow> Manager \<Rightarrow> Manager" where
  "emit es m = m\<lparr>events := events m @ es\<rparr>"

definition failure :: "string \<Rightarrow> GameMoveResult" where
  "failure msg = \<lparr>SuccessG = False, MessageG = msg, GameG = None\<rparr>"

definition success :: "Game \<Rightarrow> GameMoveResult" where
  "success game = \<lparr>SuccessG = True, MessageG = [], GameG = Some game\<rparr>"

definition CreateGame :: "Manager \<Rightarrow> Player \<Rightarrow> Player \<Rightarrow> string \<Rightarrow> time \<Rightarrow> Game \<times> Manager" where
  "CreateGame m player1 player2 gameID now =
     (let game = \<lparr>GameID = gameID, Player1 = player1, Player2 = player2, Board = CreateBoard,
                  CurrentPlayer = ID player1, Status = ''active'', Winner = [], Moves = [],
                  StartedAt = now, EndedAt = None, LastMoveAt = now\<rparr>;
          m1 = m\<lparr>games := AList.update gameID game (games m)\<rparr>
      in (game, if analytics m1 then emit [TrackGameStart game] m1 else m1))"

text \<open>\<^verbatim>\<open>UpdateLeaderboard\<close>: the upserts it sends, none unless the game is finished.\<close>

definition UpdateLeaderboard :: "Game \<Rightarrow> event list" where
  "UpdateLeaderboard game =
     (if Status game \<noteq> ''finished'' then []
      else
        (let (w1, l1, d1) =
               (if Winner game = ID (Player1 game) then (1, 0, 0)
                else if Winner game \<noteq> ''draw'' then (0, 1, 0)
                else (0, 0, 1))
         in [LeaderboardUpsert (Username (Player1 game)) w1 l1 d1 1]) @
        (if \<not> IsBot (Player2 game) then
           (let (w2, l2, d2) =
                  (if Winner game = ''bot'' then (1, 0, 0)
                   else if Winner game = ID (Player2 game) then (1, 0, 0)
                   else if Winner game \<noteq> ''draw'' \<and> Winner game \<noteq> ID (Player2 game) then (0, 1, 0)
                   else if Winner game = ''draw'' then (0, 0, 1)
                   else (0, 0, 0))
            in [LeaderboardUpsert (Username (Player2 game)) w2 l2 d2 1])
         else []))"

definition SaveGame :: "Game \<Rightarrow> event list" where
  "SaveGame game = (if Status game \<noteq> ''finished'' then [] else [GameInsert game])"

text \<open>
  The side to move, as \<^verbatim>\<open>Manager.MakeMove\<close> finds it (\<^verbatim>\<open>var player *Player\<close>): the
  first participant when the turn token is its identifier, the second otherwise.
\<close>

definition sideToMove :: "Game \<Rightarrow> Player" where
  "sideToMove game =
     (if CurrentPlayer game = ID (Player1 game) then Player1 game else Player2 game)"

text \<open>
  The end of \<^verbatim>\<open>Manager.MakeMove\<close> and \<^verbatim>\<open>BotMakeMove\<close>, common to their three branches:
  the game as mutated is what the map holds, the upserts of the branch are sent, the
  move is tracked and the result carries the game.
\<close>

definition commitMove ::
  "Manager \<Rightarrow> string \<Rightarrow> Game \<Rightarrow> event list \<Rightarrow> int \<Rightarrow> int \<Rightarrow> GameMoveResult \<times> Manager" where
  "commitMove m gameID game upserts column row =
     (let m1 = m\<lparr>games := AList.update gameID game (games m)\<rparr>;
          m2 = emit upserts m1;
          m3 = (if analytics m2 then emit [TrackMove game column row] m2 else m2)
      in (success game, m3))"

text \<open>
  \<^verbatim>\<open>Manager.MakeMove\<close>. Every \<^verbatim>\<open>return\<close> of a failure comes before the first
  assignment to the game, so those branches return the manager they received.
\<close>

definition Manager_MakeMove ::
  "Manager \<Rightarrow> string \<Rightarrow> int \<Rightarrow> conn option \<Rightarrow> time \<Rightarrow> (GameMoveResult \<times> Manager) option" where
  "Manager_MakeMove m gameID column c now =
     (case map_of (games m) gameID of
        None \<Rightarrow> Some (failure ''Game not found'', m)
      | Some game \<Rightarrow>
          if Status game \<noteq> ''active'' then Some (failure ''Game is not active'', m)
          else if IsBot (sideToMove game) then Some (failure ''Not your turn'', m)
          else if Conn (sideToMove game) \<noteq> c then Some (failure ''Not your turn'', m)
          else if column < 0 \<or> column \<ge> 7 then Some (failure ''Invalid column'', m)
          else
            (case MakeMove (Board game) column (CurrentPlayer game) of
               None \<Rightarrow> None
             | Some (board', moveResult) \<Rightarrow>
                 if \<not> Success moveResult then Some (failure (Message moveResult), m)
                 else
                   let game1 = game\<lparr>Board := board',
                                 Moves := Moves game @
                                   [\<lparr>MovePlayer = CurrentPlayer game, Column = column,
                                     MoveRow = Row moveResult, Timestamp = now\<rparr>],
                                 LastMoveAt := now\<rparr> in
                   (case CheckWin board' (Row moveResult) column of
                      None \<Rightarrow> None
                    | Some winResult \<Rightarrow>
                        if Won winResult then
                          (let game2 = game1\<lparr>Status := ''finished'',
                                             Winner := CurrentPlayer game1,
                                             EndedAt := Some now\<rparr>
                           in Some (commitMove m gameID game2 (UpdateLeaderboard game2)
                                      column (Row moveResult)))
                        else
                          (case IsBoardFull board' of
                             None \<Rightarrow> None
                           | Some True \<Rightarrow>
                               (let game2 = game1\<lparr>Status := ''finished'', Winner := ''draw'',
                                                  EndedAt := Some now\<rparr>
                                in Some (commitMove m gameID game2 (UpdateLeaderboard game2)
                                           column (Row moveResult)))
                           | Some False \<Rightarrow>
                               (let game2 =
                                      (if CurrentPlayer game1 = ID (Player1 game1) then
                                         (if IsBot (Player2 game1)
                                          then game1\<lparr>CurrentPlayer := ''bot''\<rparr>
                                          else game1\<lparr>CurrentPlayer := ID (Player2 game1)\<rparr>)
                                       else game1\<lparr>CurrentPlayer := ID (Player1 game1)\<rparr>)
                                in Some (commitMove m gameID game2 []
                                           column (Row moveResult)))))))"

definition BotMakeMove ::
  "Manager \<Rightarrow> string \<Rightarrow> int \<Rightarrow> time \<Rightarrow> (GameMoveResult \<times> Manager) option" where
  "BotMakeMove m gameID column now =
     (case map_of (games m) gameID of
        None \<Rightarrow> Some (failure [], m)
      | Some game \<Rightarrow>
          if Status game \<noteq> ''active'' then Some (failure [], m)
          else if CurrentPlayer game \<noteq> ''bot'' then Some (failure [], m)
          else
            (case MakeMove (Board game) column ''bot'' of
               None \<Rightarrow> None
             | Some (board', moveResult) \<Rightarrow>
                 if \<not> Success moveResult then Some (failure [], m)
                 else
                   let game1 = game\<lparr>Board := board',
                                 Moves := Moves game @
                                   [\<lparr>MovePlayer = ''bot'', Column = column,
                                     MoveRow = Row moveResult, Timestamp = now\<rparr>],
                                 LastMoveAt := now\<rparr> in
                   (case CheckWin board' (Row moveResult) column of
                      None \<Rightarrow> None
                    | Some winResult \<Rightarrow>
                        if Won winResult then
                          (let game2 = game1\<lparr>Status := ''finished'', Winner := ''bot'',
                                             EndedAt := Some now\<rparr>
                           in Some (commitMove m gameID game2 (UpdateLeaderboard game2)
                                      column (Row moveResult)))
                        else
                          (case IsBoardFull board' of
                             None \<Rightarrow> None
                           | Some True \<Rightarrow>
                               (let game2 = game1\<lparr>Status := ''finished'', Winner := ''draw'',
                                                  EndedAt := Some now\<rparr>
                                in Some (commitMove m gameID game2 (UpdateLeaderboard game2)
                                           column (Row moveResult)))
                           | Some False \<Rightarrow>
                               (let game2 = game1\<lparr>CurrentPlayer := ID (Player1 game1)\<rparr>
                                in Some (commitMove m gameID game2 []
                                           column (Row moveResult)))))))"

text \<open>
  \<^verbatim>\<open>ForfeitGame\<close>; \<open>notify\<close> says whether \<^verbatim>\<open>notifyCallback\<close> is not \<^verbatim>\<open>nil\<close>. The result
  is the finished game, or \<open>None\<close> for the \<^verbatim>\<open>nil\<close> it returns when there is nothing to
  forfeit.
\<close>

definition ForfeitGame ::
  "Manager \<Rightarrow> string \<Rightarrow> string \<Rightarrow> bool \<Rightarrow> time \<Rightarrow> Game option \<times> Manager" where
  "ForfeitGame m gameID forfeitingPlayerID notify now =
     (case map_of (games m) gameID of
        None \<Rightarrow> (None, m)
      | Some game \<Rightarrow>
          if Status game \<noteq> ''active'' then (None, m)
          else
            let game1 = game\<lparr>Status := ''finished'', EndedAt := Some now\<rparr>;
                game2 = (if ID (Player1 game1) = forfeitingPlayerID then
                           (if IsBot (Player2 game1) then game1\<lparr>Winner := ''bot''\<rparr>
                            else game1\<lparr>Winner := ID (Player2 game1)\<rparr>)
                         else game1\<lparr>Winner := ID (Player1 game1)\<rparr>);
                m1 = emit (SaveGame game2 @ UpdateLeaderboard game2 @
                           (if analytics m then [TrackGameEnd game2] else []) @
                           (if notify then [Notify game2] else [])) m;
                m2 = m1\<lparr>games := AList.delete gameID (games m1),
                        reconnectWindows := AList.delete gameID (reconnectWindows m1)\<rparr>
            in (Some game2, m2))"

definition RejoinGame ::
  "Manager \<Rightarrow> conn option \<Rightarrow> string \<Rightarrow> string \<Rightarrow> time \<Rightarrow> RejoinResult \<times> Manager" where
  "RejoinGame m c username gameID now =
     (case map_of (games m) gameID of
        None \<Rightarrow> (failure ''Game not found'', m)
      | Some game \<Rightarrow>
          (case map_of (reconnectWindows m) gameID of
             None \<Rightarrow> (failure ''Reconnection window expired'', m)
           | Some reconnectInfo \<Rightarrow>
               if now > ExpiresAt reconnectInfo then
                 (let m1 = m\<lparr>reconnectWindows := AList.delete gameID (reconnectWindows m)\<rparr>;
                      (forfeited, m2) = ForfeitGame m1 gameID (PlayerID reconnectInfo) False now
                  in (failure ''Reconnection window expired'', m2))
               else if Username (Player1 game) = username then
                 (let game1 = game\<lparr>Player1 := (Player1 game)\<lparr>Conn := c\<rparr>\<rparr>
                  in (success game1,
                      m\<lparr>games := AList.update gameID game1 (games m),
                        reconnectWindows := AList.delete gameID (reconnectWindows m)\<rparr>))
               else if Username (Player2 game) = username then
                 (let game1 = game\<lparr>Player2 := (Player2 game)\<lparr>Conn := c\<rparr>\<rparr>
                  in (success game1,
                      m\<lparr>games := AList.update gameID game1 (games m),
                        reconnectWindows := AList.delete gameID (reconnectWindows m)\<rparr>))
               else (failure ''Username does not match this game'', m)))"

text \<open>
  \<^verbatim>\<open>HandleDisconnect\<close> visits every game of the map. One visit touches the window of
  its own game only, so the visits are independent of the order Go chooses; the model
  visits them in list order. \<open>ReconnectSeconds\<close> is the 30 seconds of the source in the
  unit of \<open>time\<close>, which the source does not fix for the model.
\<close>

definition ReconnectSeconds :: time where
  "ReconnectSeconds = 30"

definition disconnectGame :: "conn option \<Rightarrow> time \<Rightarrow> Manager \<Rightarrow> string \<times> Game \<Rightarrow> Manager" where
  "disconnectGame c now m entry =
     (let (gameID, game) = entry in
      if Status game \<noteq> ''active'' then m
      else
        (case (if Conn (Player1 game) = c then Some (Player1 game, Player2 game)
               else if Conn (Player2 game) = c \<and> \<not> IsBot (Player2 game)
               then Some (Player2 game, Player1 game)
               else None) of
           None \<Rightarrow> m
         | Some (disconnectedPlayer, opponent) \<Rightarrow>
             let m1 = m\<lparr>reconnectWindows :=
                         AList.update gameID
                           \<lparr>PlayerID = ID disconnectedPlayer,
                            ExpiresAt = now + ReconnectSeconds\<rparr>
                           (reconnectWindows m)\<rparr>
             in emit ((case Conn opponent of
                         None \<Rightarrow> []
                       | Some oc \<Rightarrow> [PlayerDisconnected oc (Username disconnectedPlayer)]) @
                      [ForfeitTimerArmed gameID (ID disconnectedPlayer)]) m1))"

definition HandleDisconnect :: "Manager \<Rightarrow> conn option \<Rightarrow> time \<Rightarrow> Manager" where
  "HandleDisconnect m c now = foldl (disconnectGame c now) m (games m)"

text \<open>
  What an armed forfeiture timer runs when it fires: the closure passed to
  \<^verbatim>\<open>time.AfterFunc\<close> in \<^verbatim>\<open>HandleDisconnect\<close>, with the game and player it captured.
\<close>

definition forfeitTimerFired :: "Manager \<Rightarrow> string \<Rightarrow> string \<Rightarrow> bool \<Rightarrow> time \<Rightarrow> Manager" where
  "forfeitTimerFired m forfeitGameID forfeitPlayerID notify now =
     (case map_of (reconnectWindows m) forfeitGameID of
        None \<Rightarrow> m
      | Some w \<Rightarrow>
          (let (forfeitedGame, m1) = ForfeitGame m forfeitGameID forfeitPlayerID notify now
           in case forfeitedGame of
                None \<Rightarrow> m1
              | Some game \<Rightarrow> if notify then emit [Notify game] m1 else m1))"

definition GetGame :: "Manager \<Rightarrow> string \<Rightarrow> Game option" where
  "GetGame m gameID = map_of (games m) gameID"

section \<open>Opponent policy (package bot)\<close>

text \<open>
  \<^verbatim>\<open>copyBoard\<close> allocates new rows and copies the cells; a board is a value here, so the
  copy is the board. \<open>absInt\<close> is the \<^verbatim>\<open>abs\<close> of the package.
\<close>

definition copyBoard :: "board \<Rightarrow> board" where
  "copyBoard board = map (\<lambda>row. row) board"

definition absInt :: "int \<Rightarrow> int" where
  "absInt x = (if x < 0 then - x else x)"

text \<open>
  The first loop of \<^verbatim>\<open>Player.MakeMove\<close> over \<^verbatim>\<open>validMoves\<close>; its result is the value
  of \<^verbatim>\<open>blockingColumn\<close> after the loop, \<open>- 1\<close> when no column was found.
\<close>

fun blockLoop :: "board \<Rightarrow> string \<Rightarrow> int list \<Rightarrow> int option" where
  "blockLoop board opponentID [] = Some (- 1)"
| "blockLoop board opponentID (col # rest) =
     (case MakeMove (copyBoard board) col opponentID of
        None \<Rightarrow> None
      | Some (testBoard, moveResult) \<Rightarrow>
          if Success moveResult then
            (case CheckWin testBoard (Row moveResult) col of
               None \<Rightarrow> None
             | Some winCheck \<Rightarrow>
                 if Won winCheck then Some col
                 else blockLoop board opponentID rest)
          else blockLoop board opponentID rest)"

text \<open>
  The second loop: \<open>Some col\<close> when the loop leaves the function through
  \<^verbatim>\<open>executeMove\<close> with that column, \<open>None\<close> when it runs to its end.
\<close>

fun winLoop :: "board \<Rightarrow> string \<Rightarrow> int list \<Rightarrow> int option option" where
  "winLoop board botID [] = Some None"
| "winLoop board botID (col # rest) =
     (case MakeMove (copyBoard board) col botID of
        None \<Rightarrow> None
      | Some (testBoard, moveResult) \<Rightarrow>
          if \<not> Success moveResult then winLoop board botID rest
          else
            (case CheckWin testBoard (Row moveResult) col of
               None \<Rightarrow> None
             | Some winCheck \<Rightarrow>
                 if Won winCheck then Some (Some col)
                 else winLoop board botID rest))"

text \<open>
  The third loop, with \<^verbatim>\<open>bestColumn\<close> and \<^verbatim>\<open>bestScore\<close> as arguments; its result is
  \<^verbatim>\<open>bestColumn\<close> after the loop.
\<close>

fun bestLoop :: "board \<Rightarrow> string \<Rightarrow> string \<Rightarrow> int list \<Rightarrow> int \<Rightarrow> int \<Rightarrow> int option" where
  "bestLoop board botID opponentID [] bestColumn bestScore = Some bestColumn"
| "bestLoop board botID opponentID (col # rest) bestColumn bestScore =
     (case MakeMove (copyBoard board) col botID of
        None \<Rightarrow> None
      | Some (testBoard, moveResult) \<Rightarrow>
          if \<not> Success moveResult then
            bestLoop board botID opponentID rest bestColumn bestScore
          else
            (case EvaluatePosition testBoard botID opponentID of
               None \<Rightarrow> None
             | Some score0 \<Rightarrow>
                 let centerDistance = absInt (col - 3);
                     score = score0 + (3 - centerDistance) * 5
                 in if score > bestScore
                    then bestLoop board botID opponentID rest col score
                    else bestLoop board botID opponentID rest bestColumn bestScore))"

text \<open>
  The column that \<^verbatim>\<open>Player.MakeMove\<close> passes to \<^verbatim>\<open>executeMove\<close>, for a list of valid
  moves that is not empty.
\<close>

definition chooseColumn :: "board \<Rightarrow> string \<Rightarrow> string \<Rightarrow> int list \<Rightarrow> int option" where
  "chooseColumn board opponentID botID validMoves =
     (case blockLoop board opponentID validMoves of
        None \<Rightarrow> None
      | Some blockingColumn \<Rightarrow>
          if blockingColumn \<noteq> - 1 then Some blockingColumn
          else
            (case winLoop board botID validMoves of
               None \<Rightarrow> None
             | Some (Some col) \<Rightarrow> Some col
             | Some None \<Rightarrow>
                 bestLoop board botID opponentID validMoves (hd validMoves) (- 999999)))"

definition executeMove ::
  "Manager \<Rightarrow> Game \<Rightarrow> int \<Rightarrow> bool \<Rightarrow> time \<Rightarrow> Manager option" where
  "executeMove m g column notify now =
     (case BotMakeMove m (GameID g) column now of
        None \<Rightarrow> None
      | Some (result, m1) \<Rightarrow>
          if SuccessG result then
            (case GameG result of
               Some updatedGame \<Rightarrow>
                 Some (if notify then emit [Notify updatedGame] m1 else m1)
             | None \<Rightarrow> Some m1)
          else Some m1)"

text \<open>
  \<^verbatim>\<open>Player.MakeMove\<close>: \<open>g\<close> is the game as the pointer shows it at the call, which is
  the entry of the map for a game that is in the map.
\<close>

definition Player_MakeMove :: "Manager \<Rightarrow> Game \<Rightarrow> bool \<Rightarrow> time \<Rightarrow> Manager option" where
  "Player_MakeMove m g notify now =
     (if Status g \<noteq> ''active'' \<or> CurrentPlayer g \<noteq> ''bot'' then Some m
      else
        (case GetValidMoves (Board g) of
           None \<Rightarrow> None
         | Some validMoves \<Rightarrow>
             if length validMoves = 0 then Some m
             else
               (case chooseColumn (Board g) (ID (Player1 g)) ''bot'' validMoves of
                  None \<Rightarrow> None
                | Some column \<Rightarrow> executeMove m g column notify now)))"

text \<open>
  The notions of the policy, stated on the board: a drop of \<open>side\<close> into \<open>col\<close> that
  lands and makes four through the landing cell; and the score of the bot's drop into
  \<open>col\<close>, the evaluation of the resulting board plus the bonus for central columns.
\<close>

definition dropWins :: "board \<Rightarrow> int \<Rightarrow> string \<Rightarrow> bool" where
  "dropWins board col side =
     (case MakeMove board col side of
        None \<Rightarrow> False
      | Some (board', r) \<Rightarrow> Success r \<and> four_through board' (Row r) col)"

definition dropScore :: "board \<Rightarrow> int \<Rightarrow> string \<Rightarrow> string \<Rightarrow> int" where
  "dropScore board col botID opponentID =
     (case MakeMove board col botID of
        None \<Rightarrow> 0
      | Some (board', r) \<Rightarrow>
          (case EvaluatePosition board' botID opponentID of
             None \<Rightarrow> 0
           | Some s \<Rightarrow> s + (3 - \<bar>col - 3\<bar>) * 5))"

definition legalColumns :: "board \<Rightarrow> int list" where
  "legalColumns board = filter (\<lambda>col. at board 0 col = None) [0..COLS - 1]"

text \<open>The number of windows of four cells that start at a cell and stay in the grid.\<close>

definition window_inside :: "int \<Rightarrow> int \<Rightarrow> int \<Rightarrow> int \<Rightarrow> bool" where
  "window_inside row col dr dc = list_all (\<lambda>j. in_grid (row + j * dr) (col + j * dc)) [0..3]"

definition windowsAt :: "int \<Rightarrow> int \<Rightarrow> int" where
  "windowsAt row col =
     (if window_inside row col 0 1 then 1 else 0) + (if window_inside row col 1 0 then 1 else 0) +
     (if window_inside row col 1 1 then 1 else 0) + (if window_inside row col 1 (- 1) then 1 else 0)"

definition windowsFrom :: "int \<Rightarrow> int \<Rightarrow> int" where
  "windowsFrom row col = sum_list (map (windowsAt row) [col..COLS - 1])"

definition windowsBelow :: "int \<Rightarrow> int" where
  "windowsBelow row = sum_list (map (\<lambda>r. windowsFrom r 0) [row..ROWS - 1])"

subsection \<open>Example states\<close>

text \<open>
  Two players, a board whose leftmost column is full, a game between them and a manager
  that holds it with a reconnect window; then a board on which either side is one drop
  away from four in a column.
\<close>

definition alice :: Player where
  "alice = \<lparr>ID = ''1'', Username = ''alice'', Conn = Some 1, IsBot = False\<rparr>"

definition bob :: Player where
  "bob = \<lparr>ID = ''2'', Username = ''bob'', Conn = Some 2, IsBot = False\<rparr>"

definition fullLeft :: board where
  "fullLeft = replicate 6 (Some ''2'' # replicate 6 None)"

definition sampleGame :: Game where
  "sampleGame = \<lparr>GameID = ''g'', Player1 = alice, Player2 = bob, Board = fullLeft,
                  CurrentPlayer = ''1'', Status = ''active'', Winner = [], Moves = [],
                  StartedAt = 0, EndedAt = None, LastMoveAt = 0\<rparr>"

definition sampleManager :: Manager where
  "sampleManager =
     \<lparr>games = [(''g'', sampleGame),
               (''h'', sampleGame\<lparr>GameID := ''h'', Status := ''finished''\<rparr>)],
      reconnectWindows = [(''g'', \<lparr>PlayerID = ''1'', ExpiresAt = 30\<rparr>)],
      analytics = False, events = []\<rparr>"

definition bobWins :: board where
  "bobWins = replicate 3 (replicate 7 None) @
             replicate 3 ([Some ''1'', Some ''2''] @ replicate 5 None)"

text \<open>
  A run of the manager: the two players are matched, drop in turn into columns 0, 1, 0,
  1, 0, 1 and 6, and then the connection of the first player is lost.
\<close>

fun playAll :: "Manager \<Rightarrow> string \<Rightarrow> (int \<times> conn option \<times> time) list \<Rightarrow> Manager option" where
  "playAll m gameID [] = Some m"
| "playAll m gameID ((column, c, now) # rest) =
     (case Manager_MakeMove m gameID column c now of
        None \<Rightarrow> None
      | Some (r, m') \<Rightarrow> playAll m' gameID rest)"

definition aliceDropsOut :: "Manager option" where
  "aliceDropsOut =
     map_option (\<lambda>m. HandleDisconnect m (Some 1) 8)
       (playAll (snd (CreateGame (NewManager False) alice bob ''g'' 0)) ''g''
          [(0, Some 1, 1), (1, Some 2, 2), (0, Some 1, 3), (1, Some 2, 4),
           (0, Some 1, 5), (1, Some 2, 6), (6, Some 1, 7)])"

section \<open>Properties of the board engine\<close>

lemma wf_CreateBoard: "wf_board CreateBoard"
  by (simp add: wf_board_def CreateBoard_def list_all_iff)

lemma getCell_wf:
  assumes "wf_board board" "in_grid row col"
  shows "getCell board row col = Some (at board row col)"
proof -
  from assms have r: "0 \<le> row" "nat row < length board"
    by (auto simp: wf_board_def in_grid_def ROWS_def)
  with assms(1) have "length (board ! nat row) = nat COLS"
    by (simp add: wf_board_def list_all_length)
  with assms r show ?thesis
    by (auto simp: getCell_def at_def in_grid_def COLS_def)
qed

lemma wf_setCell:
  assumes "wf_board board"
  shows "wf_board (setCell board row col v)"
proof -
  have "length (setCell board row col v ! n) = nat COLS" if "n < length board" for n
    using that assms
    by (cases "n = nat row") (simp_all add: wf_board_def setCell_def list_all_length)
  with assms show ?thesis
    by (simp add: wf_board_def list_all_length setCell_def)
qed

lemma at_setCell:
  assumes "wf_board board" "in_grid row col" "in_grid r c"
  shows "at (setCell board row col v) r c = (if r = row \<and> c = col then v else at board r c)"
proof -
  from assms have len: "nat row < length board" "nat r < length board"
    "length (board ! nat row) = nat COLS"
    by (auto simp: wf_board_def in_grid_def ROWS_def list_all_length)
  from assms have eqs: "nat r = nat row \<longleftrightarrow> r = row" "nat c = nat col \<longleftrightarrow> c = col"
    "nat col < nat COLS"
    by (auto simp: in_grid_def COLS_def)
  show ?thesis
    using len eqs by (auto simp: at_def setCell_def nth_list_update)
qed

lemma dropLoop_wf:
  assumes "wf_board board" "0 \<le> column" "column < COLS" "row < ROWS"
  shows "(\<exists>r. 0 \<le> r \<and> r \<le> row \<and> at board r column = None \<and>
            (\<forall>k. r < k \<and> k \<le> row \<longrightarrow> at board k column \<noteq> None) \<and>
            dropLoop board column p row =
              Some (setCell board r column (Some p), \<lparr>Success = True, Message = [], Row = r\<rparr>))
       \<or> ((\<forall>k. 0 \<le> k \<and> k \<le> row \<longrightarrow> at board k column \<noteq> None) \<and>
          dropLoop board column p row =
            Some (board, \<lparr>Success = False, Message = ''Column is full'', Row = 0\<rparr>))"
  using assms
proof (induction board column p row rule: dropLoop.induct)
  case (1 board column playerID row)
  show ?case
  proof (cases "row \<ge> 0")
    case False
    then show ?thesis by (subst dropLoop.simps) auto
  next
    case True
    with 1 have g: "getCell board row column = Some (at board row column)"
      by (intro getCell_wf) (auto simp: in_grid_def)
    show ?thesis
    proof (cases "at board row column")
      case None
      with True g show ?thesis by (subst dropLoop.simps) auto
    next
      case (Some other)
      from 1(1)[OF True g Some] 1(2-) 
      have IH: "(\<exists>r. 0 \<le> r \<and> r \<le> row - 1 \<and> at board r column = None \<and>
            (\<forall>k. r < k \<and> k \<le> row - 1 \<longrightarrow> at board k column \<noteq> None) \<and>
            dropLoop board column playerID (row - 1) =
              Some (setCell board r column (Some playerID), \<lparr>Success = True, Message = [], Row = r\<rparr>))
       \<or> ((\<forall>k. 0 \<le> k \<and> k \<le> row - 1 \<longrightarrow> at board k column \<noteq> None) \<and>
          dropLoop board column playerID (row - 1) =
            Some (board, \<lparr>Success = False, Message = ''Column is full'', Row = 0\<rparr>))"
        by simp
      have step: "dropLoop board column playerID row = dropLoop board column playerID (row - 1)"
        using True g Some by (subst dropLoop.simps) simp
      have ext: "at board k column \<noteq> None" if "r < k" "k \<le> row" 
          "\<forall>k. r < k \<and> k \<le> row - 1 \<longrightarrow> at board k column \<noteq> None" for r k
        using that Some by (cases "k = row") auto
      from IH show ?thesis
      proof
        assume "\<exists>r. 0 \<le> r \<and> r \<le> row - 1 \<and> at board r column = None \<and>
            (\<forall>k. r < k \<and> k \<le> row - 1 \<longrightarrow> at board k column \<noteq> None) \<and>
            dropLoop board column playerID (row - 1) =
              Some (setCell board r column (Some playerID), \<lparr>Success = True, Message = [], Row = r\<rparr>)"
        then obtain r where r: "0 \<le> r" "r \<le> row - 1" "at board r column = None"
            "\<forall>k. r < k \<and> k \<le> row - 1 \<longrightarrow> at board k column \<noteq> None"
            "dropLoop board column playerID (row - 1) =
              Some (setCell board r column (Some playerID), \<lparr>Success = True, Message = [], Row = r\<rparr>)"
          by blast
        have "\<forall>k. r < k \<and> k \<le> row \<longrightarrow> at board k column \<noteq> None"
          using ext r(4) by blast
        with r step show ?thesis by (intro disjI1 exI[of _ r]) simp
      next
        assume a: "(\<forall>k. 0 \<le> k \<and> k \<le> row - 1 \<longrightarrow> at board k column \<noteq> None) \<and>
          dropLoop board column playerID (row - 1) =
            Some (board, \<lparr>Success = False, Message = ''Column is full'', Row = 0\<rparr>)"
        then have "\<forall>k. 0 \<le> k \<and> k \<le> row \<longrightarrow> at board k column \<noteq> None"
          using Some by (metis option.distinct(1) zle_diff1_eq order_le_less)
        with a step show ?thesis by simp
      qed
    qed
  qed
qed

lemma list_all_upto: "list_all P [a..b] \<longleftrightarrow> (\<forall>k. a \<le> k \<and> k \<le> b \<longrightarrow> P k)"
  by (auto simp: list_all_iff)

lemma MakeMove_wf:
  assumes "wf_board board"
  shows "(\<not> in_grid 0 column \<and>
          MakeMove board column p =
            Some (board, \<lparr>Success = False, Message = ''Invalid column'', Row = 0\<rparr>))
       \<or> (in_grid 0 column \<and> column_full board column \<and>
          MakeMove board column p =
            Some (board, \<lparr>Success = False, Message = ''Column is full'', Row = 0\<rparr>))
       \<or> (in_grid 0 column \<and> (\<exists>r. lowest_empty board column r \<and>
          MakeMove board column p =
            Some (setCell board r column (Some p), \<lparr>Success = True, Message = [], Row = r\<rparr>)))"
proof (cases "in_grid 0 column")
  case False
  then show ?thesis by (auto simp: MakeMove_def in_grid_def ROWS_def)
next
  case True
  then have c: "0 \<le> column" "column < COLS" by (auto simp: in_grid_def)
  have m: "MakeMove board column p = dropLoop board column p (ROWS - 1)"
    using c by (simp add: MakeMove_def)
  from dropLoop_wf[OF assms c, of "ROWS - 1" p] show ?thesis
    unfolding m using True
    by (auto simp: column_full_def lowest_empty_def list_all_upto ROWS_def)
qed

lemma colCount_card:
  "colCount board col = card {row. 0 \<le> row \<and> row < ROWS \<and> at board row col \<noteq> None}"
proof -
  have "{row. 0 \<le> row \<and> row < ROWS \<and> at board row col \<noteq> None}
        = {x. at board x col \<noteq> None} \<inter> set [0..ROWS - 1]"
    by auto
  then show ?thesis
    by (simp add: colCount_def distinct_length_filter del: set_upto)
qed

lemma colCount_le: "colCount board col \<le> nat ROWS"
proof -
  have "colCount board col \<le> length [0..ROWS - 1]"
    unfolding colCount_def by (rule length_filter_le)
  then show ?thesis by (simp add: ROWS_def)
qed

lemma colCount_setCell:
  assumes "wf_board board" "in_grid r column" "at board r column = None" "in_grid 0 c"
  shows "colCount (setCell board r column (Some p)) c =
         colCount board c + (if c = column then 1 else 0)"
proof -
  let ?S = "\<lambda>b. {row. 0 \<le> row \<and> row < ROWS \<and> at b row c \<noteq> None}"
  have "?S board \<subseteq> {0..ROWS}" by auto
  then have fin: "finite (?S board)" by (rule finite_subset) simp
  have ing: "in_grid row c" if "0 \<le> row" "row < ROWS" for row
    using that assms(4) by (simp add: in_grid_def)
  have upd: "at (setCell board r column (Some p)) row c =
             (if row = r \<and> c = column then Some p else at board row c)"
    if "0 \<le> row" "row < ROWS" for row
    using at_setCell[OF assms(1,2) ing[OF that]] .
  show ?thesis
  proof (cases "c = column")
    case True
    have "?S (setCell board r column (Some p)) = insert r (?S board)"
      using assms(2) True upd
      by (auto simp: in_grid_def)
    moreover have "r \<notin> ?S board" using assms(3) True by simp
    ultimately show ?thesis
      using fin True by (simp add: colCount_card)
  next
    case False
    have "?S (setCell board r column (Some p)) = ?S board"
      using False upd by auto
    then show ?thesis using False by (simp add: colCount_card)
  qed
qed

lemma lowest_empty_in_grid: "lowest_empty board col row \<Longrightarrow> in_grid 0 col \<Longrightarrow> in_grid row col"
  by (simp add: lowest_empty_def in_grid_def)

lemma dropAll_wf:
  assumes "wf_board board"
  shows "\<exists>board' rs. dropAll board ds = Some (board', rs) \<and> length rs = length ds \<and>
           wf_board board' \<and>
           (\<forall>c. in_grid 0 c \<longrightarrow> colCount board' c = colCount board c + landed c ds rs)"
  using assms
proof (induction ds arbitrary: board)
  case Nil
  then show ?case by (simp add: landed_def)
next
  case (Cons d ds)
  obtain column p where d: "d = (column, p)" by (cases d)
  from MakeMove_wf[OF Cons.prems, of column p]
  obtain b1 r1 where mm: "MakeMove board column p = Some (b1, r1)" and wf1: "wf_board b1"
    and cnt: "\<forall>c. in_grid 0 c \<longrightarrow>
               colCount b1 c = colCount board c + (if c = column \<and> Success r1 then 1 else 0)"
  proof (elim disjE conjE exE, goal_cases)
    case 1
    then show ?case using Cons.prems by (intro 1(1)) auto
  next
    case 2
    then show ?case using Cons.prems by (intro 2(1)) auto
  next
    case (3 r)
    have g: "in_grid r column" using 3 by (simp add: lowest_empty_in_grid)
    have e: "at board r column = None" using 3 by (simp add: lowest_empty_def)
    show ?case
      using 3(4) wf_setCell[OF Cons.prems] colCount_setCell[OF Cons.prems g e]
      by (intro 3(1)) auto
  qed
  from Cons.IH[OF wf1] obtain b2 rs where
    da: "dropAll b1 ds = Some (b2, rs)" "length rs = length ds" "wf_board b2"
    "\<forall>c. in_grid 0 c \<longrightarrow> colCount b2 c = colCount b1 c + landed c ds rs"
    by blast
  have "dropAll board (d # ds) = Some (b2, r1 # rs)"
    using mm da(1) d by simp
  moreover have "colCount b2 c = colCount board c + landed c (d # ds) (r1 # rs)"
    if "in_grid 0 c" for c
    using that da(4) cnt d by (auto simp: landed_def)
  ultimately show ?case using da(2,3) by auto
qed

text \<open>
  Claim C5. Whatever sequence of drops is applied to a 6 by 7 board, every call returns,
  the board keeps its shape, the count of a column grows by exactly the number of drops
  that landed in it and never exceeds 6; and a drop into a column without an empty cell
  returns \<open>Success = False\<close> with the message \<open>Column is full\<close> and the board as it
  was.
\<close>

theorem drops_never_overfill:
  assumes "wf_board board"
  shows "(\<exists>board' rs. dropAll board ds = Some (board', rs) \<and> wf_board board' \<and>
            (\<forall>c. in_grid 0 c \<longrightarrow>
               colCount board' c = colCount board c + landed c ds rs \<and>
               colCount board' c \<le> 6))
       \<and> (\<forall>c side. in_grid 0 c \<and> column_full board c \<longrightarrow>
            MakeMove board c side =
              Some (board, \<lparr>Success = False, Message = ''Column is full'', Row = 0\<rparr>))"
proof
  from dropAll_wf[OF assms, of ds] colCount_le
  show "\<exists>board' rs. dropAll board ds = Some (board', rs) \<and> wf_board board' \<and>
            (\<forall>c. in_grid 0 c \<longrightarrow>
               colCount board' c = colCount board c + landed c ds rs \<and>
               colCount board' c \<le> 6)"
    by (fastforce simp: ROWS_def)
next
  have "MakeMove board c side =
          Some (board, \<lparr>Success = False, Message = ''Column is full'', Row = 0\<rparr>)"
    if "in_grid 0 c" "column_full board c" for c side
    using MakeMove_wf[OF assms, of c side] that
    by (auto simp: lowest_empty_def column_full_def list_all_upto)
  then show "\<forall>c side. in_grid 0 c \<and> column_full board c \<longrightarrow>
            MakeMove board c side =
              Some (board, \<lparr>Success = False, Message = ''Column is full'', Row = 0\<rparr>)"
    by blast
qed

theorem drops_never_overfill_witness:
  "wf_board (replicate 6 (Some ''a'' # replicate 6 None)) \<and>
   in_grid 0 0 \<and> column_full (replicate 6 (Some ''a'' # replicate 6 None)) 0 \<and>
   MakeMove (replicate 6 (Some ''a'' # replicate 6 None)) 0 ''b'' =
     Some (replicate 6 (Some ''a'' # replicate 6 None),
           \<lparr>Success = False, Message = ''Column is full'', Row = 0\<rparr>) \<and>
   (\<exists>board' rs. dropAll (replicate 6 (Some ''a'' # replicate 6 None)) [(0, ''b''), (1, ''b'')]
        = Some (board', rs) \<and> wf_board board' \<and>
      colCount board' 0 = 6 + landed 0 [(0, ''b''), (1, ''b'')] rs \<and> colCount board' 0 \<le> 6)"
proof -
  let ?B = "replicate 6 (Some ''a'' # replicate 6 None) :: board"
  have wf: "wf_board ?B" by code_simp
  have h: "in_grid 0 0 \<and> column_full ?B 0" by code_simp
  have c: "colCount ?B 0 = 6" by code_simp
  from drops_never_overfill[OF wf, of "[(0, ''b''), (1, ''b'')]"] wf h c
  show ?thesis by (metis (no_types, lifting))
qed

lemma gravity_iff:
  "gravity board \<longleftrightarrow>
     (\<forall>col row. 0 \<le> col \<and> col < COLS \<and> 0 \<le> row \<and> row < ROWS - 1 \<and> at board row col \<noteq> None
        \<longrightarrow> at board (row + 1) col \<noteq> None)"
  by (auto simp: gravity_def list_all_upto)

lemma lowest_empty_iff:
  "lowest_empty board col row \<longleftrightarrow>
     (0 \<le> row \<and> row < ROWS \<and> at board row col = None \<and>
      (\<forall>k. row < k \<and> k < ROWS \<longrightarrow> at board k col \<noteq> None))"
  by (auto simp: lowest_empty_def list_all_upto)

text \<open>
  Claim C9. On a 6 by 7 board that satisfies gravity, a successful drop puts the piece in
  the lowest empty row of the chosen column, changes no other cell, and the resulting
  board satisfies gravity again.
\<close>

theorem drop_keeps_gravity:
  assumes "wf_board board" "gravity board"
    and "MakeMove board column side = Some (board', r)" "Success r"
  shows "lowest_empty board column (Row r) \<and> at board' (Row r) column = Some side \<and>
         board' = setCell board (Row r) column (Some side) \<and>
         wf_board board' \<and> gravity board'"
proof -
  from MakeMove_wf[OF assms(1), of column side] assms(3,4)
  have col: "in_grid 0 column" and low: "lowest_empty board column (Row r)"
    and b': "board' = setCell board (Row r) column (Some side)"
    by auto
  have g: "in_grid (Row r) column"
    using low col by (rule lowest_empty_in_grid)
  have wf': "wf_board board'"
    unfolding b' using assms(1) by (rule wf_setCell)
  have placed: "at board' (Row r) column = Some side"
    unfolding b' using at_setCell[OF assms(1) g g] by simp
  have "at board' (row + 1) c \<noteq> None"
    if c: "0 \<le> c" "c < COLS" and row: "0 \<le> row" "row < ROWS - 1"
      and occ: "at board' row c \<noteq> None" for c row
  proof -
    have g1: "in_grid row c" "in_grid (row + 1) c"
      using c row by (auto simp: in_grid_def)
    note u1 = at_setCell[OF assms(1) g g1(1), of "Some side"]
      and u2 = at_setCell[OF assms(1) g g1(2), of "Some side"]
    show ?thesis
    proof (cases "row = Row r \<and> c = column")
      case True
      then have "at board (row + 1) c \<noteq> None"
        using low row by (simp add: lowest_empty_iff)
      then show ?thesis unfolding b' using u2 by auto
    next
      case False
      then have "at board row c \<noteq> None"
        using occ u1 unfolding b' by auto
      then have "at board (row + 1) c \<noteq> None"
        using assms(2) c row by (auto simp: gravity_iff)
      then show ?thesis unfolding b' using u2 by auto
    qed
  qed
  then have "gravity board'" by (auto simp: gravity_iff)
  with low placed b' wf' show ?thesis by simp
qed

theorem drop_keeps_gravity_witness:
  "wf_board CreateBoard \<and> gravity CreateBoard \<and>
   MakeMove CreateBoard 3 ''a'' =
     Some (setCell CreateBoard 5 3 (Some ''a''), \<lparr>Success = True, Message = [], Row = 5\<rparr>) \<and>
   lowest_empty CreateBoard 3 5 \<and>
   at (setCell CreateBoard 5 3 (Some ''a'')) 5 3 = Some ''a'' \<and>
   gravity (setCell CreateBoard 5 3 (Some ''a''))"
proof -
  have wf: "wf_board CreateBoard" by code_simp
  have gr: "gravity CreateBoard" by code_simp
  have mm: "MakeMove CreateBoard 3 ''a'' =
     Some (setCell CreateBoard 5 3 (Some ''a''), \<lparr>Success = True, Message = [], Row = 5\<rparr>)"
    by code_simp
  from drop_keeps_gravity[OF wf gr mm] wf gr mm show ?thesis by simp
qed

subsection \<open>Win detection\<close>

lemma streak_iff:
  "streak board row col dr dc p n \<longleftrightarrow>
     (\<forall>k. 1 \<le> k \<and> k \<le> n \<longrightarrow>
        in_grid (row + k * dr) (col + k * dc) \<and> at board (row + k * dr) (col + k * dc) = Some p)"
  by (simp add: streak_def list_all_upto)

lemma streak_mono: "streak board row col dr dc p n \<Longrightarrow> m \<le> n \<Longrightarrow> streak board row col dr dc p m"
  by (auto simp: streak_iff)

lemma streak_Suc:
  "streak board row col dr dc p (n + 1) \<longleftrightarrow>
     streak board row col dr dc p n \<and>
     (0 \<le> n \<longrightarrow> in_grid (row + (n + 1) * dr) (col + (n + 1) * dc) \<and>
                 at board (row + (n + 1) * dr) (col + (n + 1) * dc) = Some p)"
proof -
  have "k \<le> n + 1 \<longleftrightarrow> k \<le> n \<or> k = n + 1" for k :: int by auto
  then show ?thesis by (auto simp: streak_iff)
qed

lemma far_outside:
  assumes "in_grid row col" "dr \<noteq> 0 \<or> dc \<noteq> 0" "7 \<le> k"
  shows "\<not> in_grid (row + k * dr) (col + k * dc)"
proof -
  have big: "k \<le> k * d" if "1 \<le> d" for d :: int
    using that assms(3) by (metis mult.right_neutral mult_left_mono order_trans zero_le_numeral
        dual_order.trans)
  have small: "k * d \<le> - k" if "d \<le> - 1" for d :: int
  proof -
    from big[of "- d"] that have "k \<le> k * (- d)" by simp
    then show ?thesis by simp
  qed
  from assms(2) consider "1 \<le> dr" | "dr \<le> - 1" | "1 \<le> dc" | "dc \<le> - 1" by linarith
  then show ?thesis
  proof cases
    case 1 with big[OF 1] assms(1,3) show ?thesis
      unfolding in_grid_def ROWS_def COLS_def by linarith
  next
    case 2 with small[OF 2] assms(1,3) show ?thesis
      unfolding in_grid_def ROWS_def COLS_def by linarith
  next
    case 3 with big[OF 3] assms(1,3) show ?thesis
      unfolding in_grid_def ROWS_def COLS_def by linarith
  next
    case 4 with small[OF 4] assms(1,3) show ?thesis
      unfolding in_grid_def ROWS_def COLS_def by linarith
  qed
qed

lemma scanLoop_streak:
  assumes "wf_board board" "in_grid row col" "dr \<noteq> 0 \<or> dc \<noteq> 0"
    and "1 \<le> k" "streak board row col dr dc p (k - 1)"
  shows "\<exists>n. k - 1 \<le> n \<and>
           scanLoop board (row + k * dr) (col + k * dc) dr dc p count
             = Some (count + (n - (k - 1))) \<and>
           streak board row col dr dc p n \<and> \<not> streak board row col dr dc p (n + 1)"
  using assms(4,5)
proof (induction "nat (7 - k)" arbitrary: k count)
  case 0
  then have "7 \<le> k" by simp
  from far_outside[OF assms(2,3) this]
  have out: "\<not> in_grid (row + k * dr) (col + k * dc)" .
  then have "scanLoop board (row + k * dr) (col + k * dc) dr dc p count = Some count"
    by (subst scanLoop.simps) (auto simp: in_grid_def)
  moreover have "\<not> streak board row col dr dc p (k - 1 + 1)"
    using out 0(2) by (subst streak_Suc) simp
  ultimately show ?case using 0(3) by (intro exI[of _ "k - 1"]) simp
next
  case (Suc m)
  let ?r = "row + k * dr" and ?c = "col + k * dc"
  show ?case
  proof (cases "in_grid ?r ?c \<and> at board ?r ?c = Some p")
    case True
    then have g: "getCell board ?r ?c = Some (Some p)"
      using getCell_wf[OF assms(1), of ?r ?c] by simp
    have step: "scanLoop board ?r ?c dr dc p count
          = scanLoop board (row + (k + 1) * dr) (col + (k + 1) * dc) dr dc p (count + 1)"
      using True g by (subst scanLoop.simps) (simp add: in_grid_def algebra_simps)
    have st: "streak board row col dr dc p (k + 1 - 1)"
      using streak_Suc[of board row col dr dc p "k - 1"] Suc.prems True by simp
    from Suc.hyps(2) have m: "m = nat (7 - (k + 1))" by simp
    from Suc.prems have k1: "1 \<le> k + 1" by simp
    from Suc.hyps(1)[OF m k1 st, of "count + 1"] obtain n where
      n: "k \<le> n" "scanLoop board (row + (k + 1) * dr) (col + (k + 1) * dc) dr dc p (count + 1)
             = Some (count + 1 + (n - k))"
         "streak board row col dr dc p n" "\<not> streak board row col dr dc p (n + 1)"
      by auto
    then show ?thesis unfolding step by (intro exI[of _ n]) simp
  next
    case False
    then have "scanLoop board ?r ?c dr dc p count = Some count"
      using getCell_wf[OF assms(1), of ?r ?c]
      by (subst scanLoop.simps) (auto simp: in_grid_def)
    moreover have "\<not> streak board row col dr dc p (k - 1 + 1)"
      using False Suc.prems by (subst streak_Suc) auto
    ultimately show ?thesis using Suc.prems by (intro exI[of _ "k - 1"]) simp
  qed
qed

lemma list_ex_upto: "list_ex P [a..b] \<longleftrightarrow> (\<exists>k. a \<le> k \<and> k \<le> b \<and> P k)"
  by (auto simp: list_ex_iff)

lemma four_in_line_iff:
  "four_in_line board row col dr dc \<longleftrightarrow>
     (\<exists>s. 0 \<le> s \<and> s \<le> 3 \<and>
        (\<forall>k. 0 \<le> k \<and> k \<le> 3 \<longrightarrow>
           in_grid (row + (k - s) * dr) (col + (k - s) * dc) \<and>
           at board (row + (k - s) * dr) (col + (k - s) * dc) = at board row col))"
  by (simp add: four_in_line_def list_ex_upto list_all_upto)

lemma window_streaks:
  assumes "in_grid row col" "at board row col = Some p" "0 \<le> s" "s \<le> 3"
  shows "(\<forall>k. 0 \<le> k \<and> k \<le> 3 \<longrightarrow>
            in_grid (row + (k - s) * dr) (col + (k - s) * dc) \<and>
            at board (row + (k - s) * dr) (col + (k - s) * dc) = at board row col)
         \<longleftrightarrow> streak board row col (- dr) (- dc) p s \<and> streak board row col dr dc p (3 - s)"
    (is "?W \<longleftrightarrow> ?N \<and> ?P")
proof
  assume w: ?W
  have ?P unfolding streak_iff
  proof (intro allI impI)
    fix j :: int assume j: "1 \<le> j \<and> j \<le> 3 - s"
    with assms(3) have "0 \<le> j + s \<and> j + s \<le> 3" by simp
    with w have "in_grid (row + (j + s - s) * dr) (col + (j + s - s) * dc) \<and>
           at board (row + (j + s - s) * dr) (col + (j + s - s) * dc) = at board row col"
      by blast
    with assms(2) show "in_grid (row + j * dr) (col + j * dc) \<and>
        at board (row + j * dr) (col + j * dc) = Some p" by simp
  qed
  moreover have ?N unfolding streak_iff
  proof (intro allI impI)
    fix j :: int assume j: "1 \<le> j \<and> j \<le> s"
    with assms(4) have "0 \<le> s - j \<and> s - j \<le> 3" by simp
    with w have "in_grid (row + (s - j - s) * dr) (col + (s - j - s) * dc) \<and>
           at board (row + (s - j - s) * dr) (col + (s - j - s) * dc) = at board row col"
      by blast
    with assms(2) show "in_grid (row + j * - dr) (col + j * - dc) \<and>
        at board (row + j * - dr) (col + j * - dc) = Some p" by simp
  qed
  ultimately show "?N \<and> ?P" by simp
next
  assume np: "?N \<and> ?P"
  show ?W
  proof (intro allI impI)
    fix k :: int assume k: "0 \<le> k \<and> k \<le> 3"
    consider "k - s = 0" | "1 \<le> k - s" | "1 \<le> s - k" by linarith
    then show "in_grid (row + (k - s) * dr) (col + (k - s) * dc) \<and>
           at board (row + (k - s) * dr) (col + (k - s) * dc) = at board row col"
    proof cases
      case 1
      with assms(1) show ?thesis by simp
    next
      case 2
      with k have "1 \<le> k - s \<and> k - s \<le> 3 - s" by simp
      with np assms(2) show ?thesis unfolding streak_iff by metis
    next
      case 3
      with k have "1 \<le> s - k \<and> s - k \<le> s" by simp
      with np have "in_grid (row + (s - k) * - dr) (col + (s - k) * - dc) \<and>
           at board (row + (s - k) * - dr) (col + (s - k) * - dc) = Some p"
        unfolding streak_iff by blast
      moreover have "row + (s - k) * - dr = row + (k - s) * dr"
        "col + (s - k) * - dc = col + (k - s) * dc"
        by (simp_all add: algebra_simps)
      ultimately show ?thesis using assms(2) by metis
    qed
  qed
qed

lemma streaks_count:
  assumes "0 \<le> a" "0 \<le> b"
    and "streak board row col dr dc p a" "\<not> streak board row col dr dc p (a + 1)"
    and "streak board row col (- dr) (- dc) p b" "\<not> streak board row col (- dr) (- dc) p (b + 1)"
  shows "3 \<le> a + b \<longleftrightarrow>
     (\<exists>s. 0 \<le> s \<and> s \<le> 3 \<and>
        streak board row col (- dr) (- dc) p s \<and> streak board row col dr dc p (3 - s))"
proof
  assume ab: "3 \<le> a + b"
  let ?s = "min b 3"
  have "streak board row col (- dr) (- dc) p ?s"
    using assms(5) by (rule streak_mono) simp
  moreover have "3 - ?s \<le> a" using ab assms(1) by simp
  then have "streak board row col dr dc p (3 - ?s)"
    using assms(3) streak_mono by blast
  ultimately show "\<exists>s. 0 \<le> s \<and> s \<le> 3 \<and>
        streak board row col (- dr) (- dc) p s \<and> streak board row col dr dc p (3 - s)"
    using assms(2) by (intro exI[of _ ?s]) simp
next
  assume "\<exists>s. 0 \<le> s \<and> s \<le> 3 \<and>
        streak board row col (- dr) (- dc) p s \<and> streak board row col dr dc p (3 - s)"
  then obtain s where s: "0 \<le> s" "s \<le> 3" "streak board row col (- dr) (- dc) p s"
    "streak board row col dr dc p (3 - s)" by blast
  have "s \<le> b"
  proof (rule ccontr)
    assume "\<not> s \<le> b"
    then have "b + 1 \<le> s" by simp
    with s(3) assms(6) streak_mono show False by blast
  qed
  moreover have "3 - s \<le> a"
  proof (rule ccontr)
    assume "\<not> 3 - s \<le> a"
    then have "a + 1 \<le> 3 - s" by simp
    with s(4) assms(4) streak_mono show False by blast
  qed
  ultimately show "3 \<le> a + b" by simp
qed

lemma checkDirection_wf:
  assumes "wf_board board" "in_grid row col" "dr \<noteq> 0 \<or> dc \<noteq> 0" "at board row col = Some p"
  shows "checkDirection board row col dr dc p = Some (four_in_line board row col dr dc)"
proof -
  have s0: "streak board row col d e p (1 - 1)" for d e by (auto simp: streak_iff)
  from scanLoop_streak[where k=1 and count=1, OF assms(1-3) _ s0] obtain a where
    a: "0 \<le> a" "scanLoop board (row + dr) (col + dc) dr dc p 1 = Some (1 + a)"
       "streak board row col dr dc p a" "\<not> streak board row col dr dc p (a + 1)"
    by auto
  from assms(3) have neg: "- dr \<noteq> 0 \<or> - dc \<noteq> 0" by simp
  from scanLoop_streak[where k=1 and count="1 + a", OF assms(1,2) neg _ s0] obtain b where
    b: "0 \<le> b" "scanLoop board (row - dr) (col - dc) (- dr) (- dc) p (1 + a) = Some (1 + a + b)"
       "streak board row col (- dr) (- dc) p b" "\<not> streak board row col (- dr) (- dc) p (b + 1)"
    by auto
  have cd: "checkDirection board row col dr dc p = Some (3 \<le> a + b)"
    using a(2) b(2) by (simp add: checkDirection_def WIN_LENGTH_def)
  have "3 \<le> a + b \<longleftrightarrow> four_in_line board row col dr dc"
    unfolding four_in_line_iff streaks_count[OF a(1) b(1) a(3,4) b(3,4)]
    using window_streaks[OF assms(2,4), of _ dr dc] by blast
  with cd show ?thesis by simp
qed

lemma CheckWin_decides:
  assumes "wf_board board" "in_grid row col"
  shows "\<exists>w. CheckWin board row col = Some w \<and> Won w = four_through board row col"
proof (cases "at board row col")
  case None
  then show ?thesis
    using getCell_wf[OF assms] by (simp add: CheckWin_def four_through_def)
next
  case (Some p)
  have cd: "checkDirection board row col dr dc p = Some (four_in_line board row col dr dc)"
    if "dr \<noteq> 0 \<or> dc \<noteq> 0" for dr dc
    using checkDirection_wf[OF assms that Some] .
  have g: "getCell board row col = Some (Some p)"
    using getCell_wf[OF assms] Some by simp
  show ?thesis
    unfolding CheckWin_def g four_through_def
    using Some by (simp add: cd split: bool.splits)
qed

text \<open>
  Claim C1. On a 6 by 7 board and a cell of the grid, \<^verbatim>\<open>CheckWin\<close> returns, and \<open>Won\<close>
  is true exactly when the cell is occupied and four consecutive cells of its side pass
  through it on the horizontal, the vertical or one of the two diagonals; on an empty
  cell \<open>Won\<close> is false.
\<close>

theorem CheckWin_iff_four_through:
  assumes "wf_board board" "in_grid row col"
  shows "\<exists>w. CheckWin board row col = Some w \<and>
           (Won w \<longleftrightarrow> four_through board row col) \<and>
           (at board row col = None \<longrightarrow> \<not> Won w)"
proof -
  from CheckWin_decides[OF assms] obtain w where
    w: "CheckWin board row col = Some w" "Won w = four_through board row col" by blast
  have "\<not> four_through board row col" if "at board row col = None"
    using that by (simp add: four_through_def)
  with w show ?thesis by auto
qed

theorem CheckWin_iff_four_through_witness:
  "wf_board (replicate 5 (replicate 7 None) @
       [[Some ''a'', Some ''a'', Some ''a'', Some ''a'', Some ''b'', Some ''b'', Some ''b'']]) \<and>
   in_grid 5 2 \<and> in_grid 0 0 \<and> in_grid 5 5 \<and>
   CheckWin (replicate 5 (replicate 7 None) @
       [[Some ''a'', Some ''a'', Some ''a'', Some ''a'', Some ''b'', Some ''b'', Some ''b'']]) 5 2
     = Some \<lparr>Won = True, Direction = ''horizontal''\<rparr> \<and>
   four_through (replicate 5 (replicate 7 None) @
       [[Some ''a'', Some ''a'', Some ''a'', Some ''a'', Some ''b'', Some ''b'', Some ''b'']]) 5 2 \<and>
   CheckWin (replicate 5 (replicate 7 None) @
       [[Some ''a'', Some ''a'', Some ''a'', Some ''a'', Some ''b'', Some ''b'', Some ''b'']]) 5 5
     = Some \<lparr>Won = False, Direction = []\<rparr> \<and>
   \<not> four_through (replicate 5 (replicate 7 None) @
       [[Some ''a'', Some ''a'', Some ''a'', Some ''a'', Some ''b'', Some ''b'', Some ''b'']]) 5 5 \<and>
   at (replicate 5 (replicate 7 None) @
       [[Some ''a'', Some ''a'', Some ''a'', Some ''a'', Some ''b'', Some ''b'', Some ''b'']]) 0 0
     = None \<and>
   CheckWin (replicate 5 (replicate 7 None) @
       [[Some ''a'', Some ''a'', Some ''a'', Some ''a'', Some ''b'', Some ''b'', Some ''b'']]) 0 0
     = Some \<lparr>Won = False, Direction = []\<rparr>"
proof -
  let ?B = "replicate 5 (replicate 7 None) @
       [[Some ''a'', Some ''a'', Some ''a'', Some ''a'', Some ''b'', Some ''b'', Some ''b'']]"
  have wf: "wf_board ?B" by code_simp
  have g: "in_grid 5 2" "in_grid 0 0" "in_grid 5 5" by code_simp+
  have c1: "CheckWin ?B 5 2 = Some \<lparr>Won = True, Direction = ''horizontal''\<rparr>" by code_simp
  have c2: "CheckWin ?B 5 5 = Some \<lparr>Won = False, Direction = []\<rparr>" by code_simp
  have c3: "CheckWin ?B 0 0 = Some \<lparr>Won = False, Direction = []\<rparr>" by code_simp
  have e: "at ?B 0 0 = None" by code_simp
  from CheckWin_iff_four_through[OF wf g(1)] CheckWin_iff_four_through[OF wf g(3)]
       CheckWin_iff_four_through[OF wf g(2)] wf g c1 c2 c3 e
  show ?thesis by simp
qed

subsection \<open>The evaluator\<close>

lemma lineScore_swap: "lineScore oc pc ec = - lineScore pc oc ec"
proof -
  consider "pc > 0" "oc > 0" | "pc \<le> 0" | "oc \<le> 0" "pc > 0" by linarith
  then show ?thesis
  proof cases
    case 1
    then show ?thesis by (simp add: lineScore_def)
  next
    case 2
    then have "pc \<noteq> 4" "pc \<noteq> 3" "pc \<noteq> 2" by auto
    with 2 show ?thesis unfolding lineScore_def WIN_LENGTH_def by auto
  next
    case 3
    then have "oc \<noteq> 4" "oc \<noteq> 3" "oc \<noteq> 2" by auto
    with 3 show ?thesis unfolding lineScore_def WIN_LENGTH_def by auto
  qed
qed

declare lineLoop.simps [simp del] scoreCols.simps [simp del] scoreRows.simps [simp del]

lemma lineLoop_swap:
  assumes "a \<noteq> b"
  shows "lineLoop board sr sc dr dc b a i oc pc ec =
         map_option uminus (lineLoop board sr sc dr dc a b i pc oc ec)"
  using assms
proof (induction board sr sc dr dc a b i pc oc ec rule: lineLoop.induct)
  case (1 board sr sc dr dc a b i pc oc ec)
  show ?case
  proof (cases "i < WIN_LENGTH")
    case False
    then show ?thesis
      by (subst lineLoop.simps, subst (2) lineLoop.simps) (simp add: lineScore_swap[of oc pc ec])
  next
    case i: True
    let ?row = "sr + i * dr" and ?col = "sc + i * dc"
    show ?thesis
    proof (cases "?row < 0 \<or> ?row \<ge> ROWS \<or> ?col < 0 \<or> ?col \<ge> COLS")
      case True
      with i show ?thesis
        by (subst lineLoop.simps, subst (2) lineLoop.simps) (simp add: Let_def)
    next
      case inb: False
      show ?thesis
      proof (cases "getCell board ?row ?col")
        case None
        with i inb show ?thesis
          by (subst lineLoop.simps, subst (2) lineLoop.simps) (simp add: Let_def)
      next
        case (Some cell)
        consider "cell = Some a" | "cell \<noteq> Some a" "cell = Some b"
          | "cell \<noteq> Some a" "cell \<noteq> Some b" by blast
        then show ?thesis
        proof cases
          case 1
          from "1.IH"(1)[OF i refl refl inb Some 1 "1.prems"] i inb Some 1 "1.prems"
          show ?thesis
            by (subst lineLoop.simps, subst (2) lineLoop.simps) (simp add: Let_def)
        next
          case 2
          from "1.IH"(2)[OF i refl refl inb Some 2 "1.prems"] i inb Some 2 "1.prems"
          show ?thesis
            by (subst lineLoop.simps, subst (2) lineLoop.simps) (simp add: Let_def)
        next
          case 3
          from "1.IH"(3)[OF i refl refl inb Some 3 "1.prems"] i inb Some 3 "1.prems"
          show ?thesis
            by (subst lineLoop.simps, subst (2) lineLoop.simps) (simp add: Let_def)
        qed
      qed
    qed
  qed
qed

lemma evaluateLine_swap:
  "a \<noteq> b \<Longrightarrow> evaluateLine board sr sc dr dc b a =
     map_option uminus (evaluateLine board sr sc dr dc a b)"
  unfolding evaluateLine_def by (rule lineLoop_swap)

lemma scoreCols_swap:
  assumes "a \<noteq> b"
  shows "scoreCols board b a row col (- score) =
         map_option uminus (scoreCols board a b row col score)"
  using assms
proof (induction board a b row col score rule: scoreCols.induct)
  case (1 board a b row col score)
  note sw = evaluateLine_swap[OF "1.prems", of board row col]
  show ?case
  proof (cases "col < COLS")
    case False
    then show ?thesis by (subst scoreCols.simps, subst (2) scoreCols.simps) simp
  next
    case c: True
    show ?thesis
    proof (cases "evaluateLine board row col 0 1 a b")
      case None
      with c sw show ?thesis by (subst scoreCols.simps, subst (2) scoreCols.simps) simp
    next
      case h: (Some h)
      show ?thesis
      proof (cases "evaluateLine board row col 1 0 a b")
        case None
        with c h sw show ?thesis by (subst scoreCols.simps, subst (2) scoreCols.simps) simp
      next
        case v: (Some v)
        show ?thesis
        proof (cases "evaluateLine board row col 1 1 a b")
          case None
          with c h v sw show ?thesis by (subst scoreCols.simps, subst (2) scoreCols.simps) simp
        next
          case d: (Some d)
          show ?thesis
          proof (cases "evaluateLine board row col 1 (- 1) a b")
            case None
            with c h v d sw show ?thesis
              by (subst scoreCols.simps, subst (2) scoreCols.simps) simp
          next
            case e: (Some e)
            have neg: "- score + - h + - v + - d + - e = - (score + h + v + d + e)" by simp
            from "1.IH"[OF c h v d e "1.prems"] c h v d e sw
            show ?thesis
              by (subst scoreCols.simps, subst (2) scoreCols.simps) (simp add: neg)
          qed
        qed
      qed
    qed
  qed
qed

lemma scoreRows_swap:
  assumes "a \<noteq> b"
  shows "scoreRows board b a row (- score) =
         map_option uminus (scoreRows board a b row score)"
  using assms
proof (induction board a b row score rule: scoreRows.induct)
  case (1 board a b row score)
  note sw = scoreCols_swap[OF "1.prems", of board row 0 score]
  show ?case
  proof (cases "row < ROWS")
    case False
    then show ?thesis by (simp add: scoreRows.simps[of board a b row] scoreRows.simps[of board b a row])
  next
    case r: True
    show ?thesis
    proof (cases "scoreCols board a b row 0 score")
      case None
      with r sw show ?thesis by (simp add: scoreRows.simps[of board a b row] scoreRows.simps[of board b a row])
    next
      case (Some s')
      from "1.IH"[OF r Some "1.prems"] r Some sw show ?thesis
        by (simp add: scoreRows.simps[of board a b row] scoreRows.simps[of board b a row])
    qed
  qed
qed

lemma EvaluatePosition_swap:
  "a \<noteq> b \<Longrightarrow> EvaluatePosition board b a = map_option uminus (EvaluatePosition board a b)"
  unfolding EvaluatePosition_def using scoreRows_swap[of a b board 0 0] by simp

lemma lineScore_bound:
  assumes "0 \<le> pc" "0 \<le> oc" "pc + oc \<le> 4"
  shows "\<bar>lineScore pc oc ec\<bar> \<le> 10000"
  using assms unfolding lineScore_def WIN_LENGTH_def by auto

lemma lineLoop_wf:
  assumes "wf_board board" "0 \<le> pc" "0 \<le> oc" "pc + oc \<le> i" "i \<le> 4"
  shows "\<exists>v. lineLoop board sr sc dr dc a b i pc oc ec = Some v \<and> \<bar>v\<bar> \<le> 10000"
  using assms
proof (induction board sr sc dr dc a b i pc oc ec rule: lineLoop.induct)
  case (1 board sr sc dr dc a b i pc oc ec)
  show ?case
  proof (cases "i < WIN_LENGTH")
    case False
    with "1.prems" have "pc + oc \<le> 4" by simp
    from False lineScore_bound[OF "1.prems"(2,3) this, of ec] show ?thesis
      by (subst lineLoop.simps) simp
  next
    case i: True
    let ?row = "sr + i * dr" and ?col = "sc + i * dc"
    show ?thesis
    proof (cases "?row < 0 \<or> ?row \<ge> ROWS \<or> ?col < 0 \<or> ?col \<ge> COLS")
      case True
      with i show ?thesis by (subst lineLoop.simps) (simp add: Let_def)
    next
      case inb: False
      then have "in_grid ?row ?col" by (simp add: in_grid_def)
      from getCell_wf[OF "1.prems"(1) this]
      have g: "getCell board ?row ?col = Some (at board ?row ?col)" .
      from i have i4: "i + 1 \<le> 4" by (simp add: WIN_LENGTH_def)
      consider "at board ?row ?col = Some a"
        | "at board ?row ?col \<noteq> Some a" "at board ?row ?col = Some b"
        | "at board ?row ?col \<noteq> Some a" "at board ?row ?col \<noteq> Some b" by blast
      then show ?thesis
      proof cases
        case c: 1
        from "1.prems" have "0 \<le> pc + 1" "pc + 1 + oc \<le> i + 1" by simp_all
        from "1.IH"(1)[OF i refl refl inb g c "1.prems"(1) this(1) "1.prems"(3) this(2) i4]
          i inb g c
        show ?thesis by (subst lineLoop.simps) (simp add: Let_def)
      next
        case c: 2
        from "1.prems" have "0 \<le> oc + 1" "pc + (oc + 1) \<le> i + 1" by simp_all
        from "1.IH"(2)[OF i refl refl inb g c "1.prems"(1,2) this i4] i inb g c
        show ?thesis by (subst lineLoop.simps) (simp add: Let_def)
      next
        case c: 3
        from "1.prems" have "pc + oc \<le> i + 1" by simp
        from "1.IH"(3)[OF i refl refl inb g c "1.prems"(1,2,3) this i4] i inb g c
        show ?thesis by (subst lineLoop.simps) (simp add: Let_def)
      qed
    qed
  qed
qed

lemma evaluateLine_wf:
  "wf_board board \<Longrightarrow>
   \<exists>v. evaluateLine board sr sc dr dc a b = Some v \<and> \<bar>v\<bar> \<le> 10000"
  unfolding evaluateLine_def by (rule lineLoop_wf) simp_all

lemma scoreCols_wf:
  assumes "wf_board board"
  shows "\<exists>v. scoreCols board a b row col score = Some v"
  using assms
proof (induction board a b row col score rule: scoreCols.induct)
  case (1 board a b row col score)
  show ?case
  proof (cases "col < COLS")
    case False
    then show ?thesis by (subst scoreCols.simps) simp
  next
    case c: True
    from evaluateLine_wf[OF "1.prems"] obtain h v d e where
      ev: "evaluateLine board row col 0 1 a b = Some h"
          "evaluateLine board row col 1 0 a b = Some v"
          "evaluateLine board row col 1 1 a b = Some d"
          "evaluateLine board row col 1 (- 1) a b = Some e"
      by metis
    from "1.IH"[OF c ev "1.prems"] c ev show ?thesis
      by (subst scoreCols.simps) simp
  qed
qed

lemma scoreRows_wf:
  assumes "wf_board board"
  shows "\<exists>v. scoreRows board a b row score = Some v"
  using assms
proof (induction board a b row score rule: scoreRows.induct)
  case (1 board a b row score)
  show ?case
  proof (cases "row < ROWS")
    case False
    then show ?thesis by (subst scoreRows.simps) simp
  next
    case r: True
    from scoreCols_wf[OF "1.prems"] obtain s' where
      s': "scoreCols board a b row 0 score = Some s'" by blast
    from "1.IH"[OF r s' "1.prems"] r s' show ?thesis
      by (subst scoreRows.simps) simp
  qed
qed

lemma EvaluatePosition_wf:
  "wf_board board \<Longrightarrow> \<exists>v. EvaluatePosition board a b = Some v"
  unfolding EvaluatePosition_def by (rule scoreRows_wf)

text \<open>
  Claim C10. For two distinct side identifiers the evaluator is antisymmetric: swapping
  the sides negates the result, on every board (a call that panics on a misshapen board
  panics for both orders), and on a 6 by 7 board both calls return, with opposite values.
\<close>

theorem EvaluatePosition_antisymmetric:
  assumes "a \<noteq> b"
  shows "EvaluatePosition board b a = map_option uminus (EvaluatePosition board a b) \<and>
         (wf_board board \<longrightarrow>
            (\<exists>v. EvaluatePosition board a b = Some v \<and> EvaluatePosition board b a = Some (- v)))"
proof -
  have sw: "EvaluatePosition board b a = map_option uminus (EvaluatePosition board a b)"
    using assms by (rule EvaluatePosition_swap)
  moreover have "\<exists>v. EvaluatePosition board a b = Some v \<and> EvaluatePosition board b a = Some (- v)"
    if "wf_board board"
    using EvaluatePosition_wf[OF that, of a b] sw by auto
  ultimately show ?thesis by blast
qed

theorem EvaluatePosition_antisymmetric_witness:
  "''p'' \<noteq> ''bot'' \<and>
   wf_board (setCell (setCell CreateBoard 5 3 (Some ''p'')) 5 2 (Some ''p'')) \<and>
   EvaluatePosition (setCell (setCell CreateBoard 5 3 (Some ''p'')) 5 2 (Some ''p'')) ''p'' ''bot''
     = Some 360 \<and>
   EvaluatePosition (setCell (setCell CreateBoard 5 3 (Some ''p'')) 5 2 (Some ''p'')) ''bot'' ''p''
     = Some (- 360)"
proof -
  let ?B = "setCell (setCell CreateBoard 5 3 (Some ''p'')) 5 2 (Some ''p'')"
  have ne: "''p'' \<noteq> ''bot''" by simp
  have wf: "wf_board ?B" by code_simp
  have e: "EvaluatePosition ?B ''p'' ''bot'' = Some 360" by code_simp
  from EvaluatePosition_antisymmetric[OF ne, of ?B] wf e show ?thesis by simp
qed

section \<open>Properties of the matchmaking queue\<close>

lemma waiting_AddPlayer:
  "waitingPlayers (fst (AddPlayer s p)) =
     (case waitingPlayers s of [] \<Rightarrow> [p] | opponent # rest \<Rightarrow> rest)"
  by (simp add: AddPlayer_def Let_def split: option.splits list.splits)

lemma result_AddPlayer:
  "snd (AddPlayer s p) =
     (case waitingPlayers s of
        [] \<Rightarrow> \<lparr>Matched = False, MatchPlayer1 = None, MatchPlayer2 = None\<rparr>
      | opponent # rest \<Rightarrow> \<lparr>Matched = True, MatchPlayer1 = Some opponent, MatchPlayer2 = Some p\<rparr>)"
  by (simp add: AddPlayer_def Let_def split: option.splits list.splits)

lemma waiting_RemovePlayer:
  "waitingPlayers (RemovePlayer s c) = filter (\<lambda>p. Conn p \<noteq> c) (waitingPlayers s)"
  by (simp add: RemovePlayer_def Let_def)

lemma waiting_botTimerFired:
  "waitingPlayers (fst (botTimerFired s p)) = filter (\<lambda>q. ID q \<noteq> ID p) (waitingPlayers s)"
proof (cases "isPlayerWaiting s (ID p)")
  case True
  then show ?thesis by (simp add: botTimerFired_def removeWaitingPlayer_def Let_def)
next
  case False
  then have "\<forall>q \<in> set (waitingPlayers s). ID q \<noteq> ID p"
    by (auto simp: isPlayerWaiting_def findPlayerByID_def find_None_iff)
  then have "filter (\<lambda>q. ID q \<noteq> ID p) (waitingPlayers s) = waitingPlayers s"
    by (simp add: filter_id_conv)
  with False show ?thesis by (simp add: botTimerFired_def)
qed

lemma queue_step_short:
  assumes "length (waitingPlayers s) \<le> 1"
  shows "length (waitingPlayers (queue_step s op)) \<le> 1"
proof (cases op)
  case (OpAdd p)
  with assms show ?thesis by (auto simp: waiting_AddPlayer split: list.splits)
next
  case (OpRemove c)
  from le_trans[OF length_filter_le assms] OpRemove
  show ?thesis by (simp add: waiting_RemovePlayer)
next
  case (OpSchedule p)
  with assms show ?thesis by (simp add: ScheduleBotMatch_def)
next
  case (OpFire p)
  from le_trans[OF length_filter_le assms] OpFire
  show ?thesis by (simp add: waiting_botTimerFired)
qed

lemma queue_run_short:
  "length (waitingPlayers s) \<le> 1 \<Longrightarrow> length (waitingPlayers (queue_run s ops)) \<le> 1"
  unfolding queue_run_def
proof (induction ops arbitrary: s)
  case Nil
  then show ?case by simp
next
  case (Cons op ops)
  from Cons.prems have "length (waitingPlayers (queue_step s op)) \<le> 1"
    by (rule queue_step_short)
  then show ?case using Cons.IH by simp
qed

text \<open>
  Claim C7. In every state reached from a new service by a sequence of calls (arrivals,
  withdrawals, and also timer schedulings and firings), the waiting list has at most one
  player; an arrival that finds a waiting player is matched with it, the waiting player
  first and the arrival second, and leaves the list empty; an arrival that finds the list
  empty is enqueued and gets \<open>Matched = False\<close>.
\<close>

theorem queue_holds_at_most_one:
  fixes ops :: "queue_op list" and t :: int and arrival :: MatchPlayer
  defines "s \<equiv> queue_run (NewService t) ops"
  shows "length (waitingPlayers s) \<le> 1 \<and>
         (\<forall>opponent rest. waitingPlayers s = opponent # rest \<longrightarrow>
            snd (AddPlayer s arrival) =
              \<lparr>Matched = True, MatchPlayer1 = Some opponent, MatchPlayer2 = Some arrival\<rparr> \<and>
            waitingPlayers (fst (AddPlayer s arrival)) = []) \<and>
         (waitingPlayers s = [] \<longrightarrow>
            snd (AddPlayer s arrival) =
              \<lparr>Matched = False, MatchPlayer1 = None, MatchPlayer2 = None\<rparr> \<and>
            waitingPlayers (fst (AddPlayer s arrival)) = [arrival])"
proof -
  have short: "length (waitingPlayers s) \<le> 1"
    unfolding s_def by (rule queue_run_short) (simp add: NewService_def)
  then show ?thesis
    by (auto simp: waiting_AddPlayer result_AddPlayer)
qed

theorem queue_holds_at_most_one_witness:
  "waitingPlayers (queue_run (NewService 10)
      [OpAdd \<lparr>ID = ''1'', Username = ''alice'', Conn = Some 1, IsBot = False, Connected = True\<rparr>])
    = [\<lparr>ID = ''1'', Username = ''alice'', Conn = Some 1, IsBot = False, Connected = True\<rparr>] \<and>
   snd (AddPlayer (queue_run (NewService 10)
      [OpAdd \<lparr>ID = ''1'', Username = ''alice'', Conn = Some 1, IsBot = False, Connected = True\<rparr>])
      \<lparr>ID = ''2'', Username = ''bob'', Conn = Some 2, IsBot = False, Connected = True\<rparr>)
    = \<lparr>Matched = True,
       MatchPlayer1 = Some \<lparr>ID = ''1'', Username = ''alice'', Conn = Some 1, IsBot = False, Connected = True\<rparr>,
       MatchPlayer2 = Some \<lparr>ID = ''2'', Username = ''bob'', Conn = Some 2, IsBot = False, Connected = True\<rparr>\<rparr> \<and>
   waitingPlayers (fst (AddPlayer (queue_run (NewService 10)
      [OpAdd \<lparr>ID = ''1'', Username = ''alice'', Conn = Some 1, IsBot = False, Connected = True\<rparr>])
      \<lparr>ID = ''2'', Username = ''bob'', Conn = Some 2, IsBot = False, Connected = True\<rparr>)) = [] \<and>
   waitingPlayers (queue_run (NewService 10) []) = [] \<and>
   snd (AddPlayer (queue_run (NewService 10) [])
      \<lparr>ID = ''2'', Username = ''bob'', Conn = Some 2, IsBot = False, Connected = True\<rparr>)
    = \<lparr>Matched = False, MatchPlayer1 = None, MatchPlayer2 = None\<rparr>"
proof -
  let ?alice = "\<lparr>ID = ''1'', Username = ''alice'', Conn = Some 1, IsBot = False, Connected = True\<rparr>"
  let ?bob = "\<lparr>ID = ''2'', Username = ''bob'', Conn = Some 2, IsBot = False, Connected = True\<rparr>"
  have w1: "waitingPlayers (queue_run (NewService 10) [OpAdd ?alice]) = [?alice]"
    by (simp add: queue_run_def NewService_def AddPlayer_def)
  have w0: "waitingPlayers (queue_run (NewService 10) []) = []"
    by (simp add: queue_run_def NewService_def)
  from queue_holds_at_most_one[of 10 "[OpAdd ?alice]" ?bob]
       queue_holds_at_most_one[of 10 "[]" ?bob] w1 w0
  show ?thesis by simp
qed

lemma not_waiting_after_fire:
  "\<not> isPlayerWaiting (fst (botTimerFired s player)) (ID player)"
proof -
  have "find (\<lambda>p. ID p = ID player) (filter (\<lambda>q. ID q \<noteq> ID player) (waitingPlayers s)) = None"
    by (simp add: find_None_iff)
  then show ?thesis
    by (simp add: isPlayerWaiting_def findPlayerByID_def waiting_botTimerFired)
qed

text \<open>
  Claim C6. A fallback timer that fires for a player who is not in the waiting list calls
  nothing and leaves the service as it was. When the player is waiting, the first firing
  calls the callback once and a second firing is such a no-op; so for a single waiting
  player a double firing makes exactly one call and leaves the list empty.
\<close>

theorem fallback_fires_once:
  "(\<not> isPlayerWaiting s (ID player) \<longrightarrow> botTimerFired s player = (s, [])) \<and>
   (isPlayerWaiting s (ID player) \<longrightarrow>
      snd (botTimerFired s player) = [player] \<and>
      botTimerFired (fst (botTimerFired s player)) player = (fst (botTimerFired s player), [])) \<and>
   (waitingPlayers s = [player] \<longrightarrow>
      snd (botTimerFired s player) @ snd (botTimerFired (fst (botTimerFired s player)) player)
        = [player] \<and>
      waitingPlayers (fst (botTimerFired (fst (botTimerFired s player)) player)) = [])"
proof (intro conjI impI)
  assume "\<not> isPlayerWaiting s (ID player)"
  then show "botTimerFired s player = (s, [])" by (simp add: botTimerFired_def)
next
  assume "isPlayerWaiting s (ID player)"
  then show "snd (botTimerFired s player) = [player]" by (simp add: botTimerFired_def Let_def)
next
  show "botTimerFired (fst (botTimerFired s player)) player = (fst (botTimerFired s player), [])"
    using not_waiting_after_fire[of s player]
    by (subst botTimerFired_def) simp
next
  assume one: "waitingPlayers s = [player]"
  then have w: "isPlayerWaiting s (ID player)"
    by (simp add: isPlayerWaiting_def findPlayerByID_def)
  have second: "botTimerFired (fst (botTimerFired s player)) player = (fst (botTimerFired s player), [])"
    using not_waiting_after_fire[of s player]
    by (subst botTimerFired_def) simp
  from w show "snd (botTimerFired s player) @ snd (botTimerFired (fst (botTimerFired s player)) player)
        = [player]"
    unfolding second by (simp add: botTimerFired_def Let_def)
  show "waitingPlayers (fst (botTimerFired (fst (botTimerFired s player)) player)) = []"
    unfolding second using one by (simp add: waiting_botTimerFired)
qed

theorem fallback_fires_once_witness:
  "isPlayerWaiting
     (ScheduleBotMatch (fst (AddPlayer (NewService 10)
        \<lparr>ID = ''1'', Username = ''carol'', Conn = Some 1, IsBot = False, Connected = True\<rparr>))
        \<lparr>ID = ''1'', Username = ''carol'', Conn = Some 1, IsBot = False, Connected = True\<rparr>) ''1'' \<and>
   snd (botTimerFired
     (ScheduleBotMatch (fst (AddPlayer (NewService 10)
        \<lparr>ID = ''1'', Username = ''carol'', Conn = Some 1, IsBot = False, Connected = True\<rparr>))
        \<lparr>ID = ''1'', Username = ''carol'', Conn = Some 1, IsBot = False, Connected = True\<rparr>)
     \<lparr>ID = ''1'', Username = ''carol'', Conn = Some 1, IsBot = False, Connected = True\<rparr>)
    = [\<lparr>ID = ''1'', Username = ''carol'', Conn = Some 1, IsBot = False, Connected = True\<rparr>] \<and>
   \<not> isPlayerWaiting (NewService 10) ''1'' \<and>
   botTimerFired (NewService 10)
     \<lparr>ID = ''1'', Username = ''carol'', Conn = Some 1, IsBot = False, Connected = True\<rparr>
    = (NewService 10, [])"
proof -
  let ?carol = "\<lparr>ID = ''1'', Username = ''carol'', Conn = Some 1, IsBot = False, Connected = True\<rparr>"
  let ?s = "ScheduleBotMatch (fst (AddPlayer (NewService 10) ?carol)) ?carol"
  have one: "waitingPlayers ?s = [?carol]"
    by (simp add: ScheduleBotMatch_def AddPlayer_def NewService_def)
  then have w: "isPlayerWaiting ?s (ID ?carol)"
    by (simp add: isPlayerWaiting_def findPlayerByID_def)
  have n: "\<not> isPlayerWaiting (NewService 10) (ID ?carol)"
    by (simp add: isPlayerWaiting_def findPlayerByID_def NewService_def)
  from fallback_fires_once[of ?s ?carol] fallback_fires_once[of "NewService 10" ?carol] w n one
  show ?thesis by simp
qed

section \<open>Properties of the session manager\<close>

lemma dropLoop_messages:
  "dropLoop board column p row = Some (board', r) \<Longrightarrow> \<not> Success r \<Longrightarrow>
   board' = board \<and> Message r = ''Column is full''"
proof (induction board column p row rule: dropLoop.induct)
  case (1 board column playerID row)
  show ?case
  proof (cases "row \<ge> 0")
    case False
    with "1.prems" show ?thesis by (subst (asm) dropLoop.simps) auto
  next
    case True
    show ?thesis
    proof (cases "getCell board row column")
      case None
      with True "1.prems"(1) show ?thesis by (subst (asm) dropLoop.simps) simp
    next
      case (Some cell)
      show ?thesis
      proof (cases cell)
        case None
        with True Some "1.prems" show ?thesis by (subst (asm) dropLoop.simps) auto
      next
        case (Some other)
        with True \<open>getCell board row column = Some cell\<close> "1.prems"(1)
        have "dropLoop board column playerID (row - 1) = Some (board', r)"
          by (subst (asm) dropLoop.simps) simp
        from "1.IH"[OF True _ Some this "1.prems"(2)] \<open>getCell board row column = Some cell\<close> Some
        show ?thesis by simp
      qed
    qed
  qed
qed

lemma MakeMove_messages:
  assumes "MakeMove board column p = Some (board', r)" "\<not> Success r"
  shows "board' = board \<and> (Message r = ''Invalid column'' \<or> Message r = ''Column is full'')"
proof (cases "column < 0 \<or> column \<ge> COLS")
  case True
  with assms show ?thesis by (auto simp: MakeMove_def)
next
  case False
  with assms have "dropLoop board column p (ROWS - 1) = Some (board', r)"
    by (simp add: MakeMove_def)
  from dropLoop_messages[OF this assms(2)] show ?thesis by simp
qed

lemma commitMove_success: "SuccessG (fst (commitMove m gameID game upserts column row))"
  by (simp add: commitMove_def success_def Let_def)

lemma failure_simps [simp]:
  "\<not> SuccessG (failure msg)" "MessageG (failure msg) = msg" "GameG (failure msg) = None"
  by (simp_all add: failure_def)

lemma MakeMove_failure_cases:
  assumes "Manager_MakeMove m gameID column c now = Some (r, m')" "\<not> SuccessG r"
  shows "m' = m \<and> GameG r = None \<and>
         MessageG r \<in> {''Game not found'', ''Game is not active'', ''Not your turn'',
                        ''Invalid column'', ''Column is full''}"
proof (cases "map_of (games m) gameID")
  case None
  with assms show ?thesis by (auto simp: Manager_MakeMove_def)
next
  case (Some game)
  show ?thesis
  proof (cases "Status game \<noteq> ''active'' \<or> IsBot (sideToMove game) \<or> Conn (sideToMove game) \<noteq> c
                \<or> column < 0 \<or> column \<ge> 7")
    case True
    with assms Some show ?thesis
      by (auto simp: Manager_MakeMove_def split: if_splits)
  next
    case False
    show ?thesis
    proof (cases "MakeMove (Board game) column (CurrentPlayer game)")
      case None
      with assms Some False show ?thesis by (simp add: Manager_MakeMove_def)
    next
      case mm: (Some a)
      obtain board' moveResult where a: "a = (board', moveResult)" by (cases a)
      show ?thesis
      proof (cases "Success moveResult")
        case no: False
        from MakeMove_messages[OF mm[unfolded a] no] assms Some False mm a no
        show ?thesis by (auto simp: Manager_MakeMove_def)
      next
        case True
        from assms(1) Some False mm a True have "SuccessG r"
          by (auto simp: Manager_MakeMove_def Let_def commitMove_def success_def
                   split: option.splits if_splits bool.splits)
        with assms(2) show ?thesis by simp
      qed
    qed
  qed
qed

text \<open>
  Claim C3. \<^verbatim>\<open>Manager.MakeMove\<close> answers a request for an unknown game, for a game that
  is not active, from a connection that is not the one stored for the side to move (or
  when that side is the bot), for a column outside 0..6 and for a full column with
  \<open>Success = False\<close>, the message of that case and the manager it was given; and
  whenever it returns a failure, the manager is unchanged.
\<close>

theorem MakeMove_failure_leaves_state:
  "(map_of (games m) gameID = None \<longrightarrow>
      Manager_MakeMove m gameID column c now = Some (failure ''Game not found'', m)) \<and>
   (\<forall>game. map_of (games m) gameID = Some game \<longrightarrow>
      (Status game \<noteq> ''active'' \<longrightarrow>
         Manager_MakeMove m gameID column c now = Some (failure ''Game is not active'', m)) \<and>
      (Status game = ''active'' \<and> (IsBot (sideToMove game) \<or> Conn (sideToMove game) \<noteq> c) \<longrightarrow>
         Manager_MakeMove m gameID column c now = Some (failure ''Not your turn'', m)) \<and>
      (Status game = ''active'' \<and> \<not> IsBot (sideToMove game) \<and> Conn (sideToMove game) = c \<and>
       (column < 0 \<or> 7 \<le> column) \<longrightarrow>
         Manager_MakeMove m gameID column c now = Some (failure ''Invalid column'', m)) \<and>
      (Status game = ''active'' \<and> \<not> IsBot (sideToMove game) \<and> Conn (sideToMove game) = c \<and>
       wf_board (Board game) \<and> in_grid 0 column \<and> column_full (Board game) column \<longrightarrow>
         Manager_MakeMove m gameID column c now = Some (failure ''Column is full'', m))) \<and>
   (\<forall>r m'. Manager_MakeMove m gameID column c now = Some (r, m') \<and> \<not> SuccessG r \<longrightarrow>
      m' = m \<and> GameG r = None \<and>
      MessageG r \<in> {''Game not found'', ''Game is not active'', ''Not your turn'',
                     ''Invalid column'', ''Column is full''})"
proof (intro conjI allI impI)
  assume "map_of (games m) gameID = None"
  then show "Manager_MakeMove m gameID column c now = Some (failure ''Game not found'', m)"
    by (simp add: Manager_MakeMove_def)
next
  fix game assume "map_of (games m) gameID = Some game" "Status game \<noteq> ''active''"
  then show "Manager_MakeMove m gameID column c now = Some (failure ''Game is not active'', m)"
    by (simp add: Manager_MakeMove_def)
next
  fix game assume "map_of (games m) gameID = Some game"
    "Status game = ''active'' \<and> (IsBot (sideToMove game) \<or> Conn (sideToMove game) \<noteq> c)"
  then show "Manager_MakeMove m gameID column c now = Some (failure ''Not your turn'', m)"
    by (auto simp: Manager_MakeMove_def)
next
  fix game assume "map_of (games m) gameID = Some game"
    "Status game = ''active'' \<and> \<not> IsBot (sideToMove game) \<and> Conn (sideToMove game) = c \<and>
       (column < 0 \<or> 7 \<le> column)"
  then show "Manager_MakeMove m gameID column c now = Some (failure ''Invalid column'', m)"
    by (auto simp: Manager_MakeMove_def)
next
  fix game assume g: "map_of (games m) gameID = Some game"
    and h: "Status game = ''active'' \<and> \<not> IsBot (sideToMove game) \<and> Conn (sideToMove game) = c \<and>
       wf_board (Board game) \<and> in_grid 0 column \<and> column_full (Board game) column"
  then have "MakeMove (Board game) column (CurrentPlayer game) =
      Some (Board game, \<lparr>Success = False, Message = ''Column is full'', Row = 0\<rparr>)"
    using MakeMove_wf[of "Board game" column "CurrentPlayer game"]
    by (auto simp: lowest_empty_def column_full_def list_all_upto)
  with g h show "Manager_MakeMove m gameID column c now = Some (failure ''Column is full'', m)"
    by (auto simp: Manager_MakeMove_def in_grid_def COLS_def)
next
  fix r m' assume "Manager_MakeMove m gameID column c now = Some (r, m') \<and> \<not> SuccessG r"
  then have *: "m' = m \<and> GameG r = None \<and>
         MessageG r \<in> {''Game not found'', ''Game is not active'', ''Not your turn'',
                        ''Invalid column'', ''Column is full''}"
    using MakeMove_failure_cases by blast
  from * show "m' = m" by simp
  from * show "GameG r = None" by simp
  from * show "MessageG r \<in> {''Game not found'', ''Game is not active'', ''Not your turn'',
                        ''Invalid column'', ''Column is full''}" by simp
qed

theorem MakeMove_failure_leaves_state_witness:
  "Manager_MakeMove sampleManager ''x'' 0 (Some 1) 5 = Some (failure ''Game not found'', sampleManager) \<and>
   Manager_MakeMove sampleManager ''h'' 0 (Some 1) 5 = Some (failure ''Game is not active'', sampleManager) \<and>
   Manager_MakeMove sampleManager ''g'' 0 (Some 2) 5 = Some (failure ''Not your turn'', sampleManager) \<and>
   Manager_MakeMove sampleManager ''g'' 9 (Some 1) 5 = Some (failure ''Invalid column'', sampleManager) \<and>
   wf_board (Board sampleGame) \<and> column_full (Board sampleGame) 0 \<and>
   Manager_MakeMove sampleManager ''g'' 0 (Some 1) 5 = Some (failure ''Column is full'', sampleManager)"
proof -
  have g: "map_of (games sampleManager) ''g'' = Some sampleGame"
    and h: "map_of (games sampleManager) ''h''
              = Some (sampleGame\<lparr>GameID := ''h'', Status := ''finished''\<rparr>)"
    and x: "map_of (games sampleManager) ''x'' = None"
    by (simp_all add: sampleManager_def)
  have st: "Status sampleGame = ''active''" "\<not> IsBot (sideToMove sampleGame)"
    "Conn (sideToMove sampleGame) = Some 1"
    by (simp_all add: sampleGame_def sideToMove_def alice_def)
  have b: "wf_board (Board sampleGame)" "column_full (Board sampleGame) 0" "in_grid 0 0"
    unfolding sampleGame_def fullLeft_def by code_simp+
  from MakeMove_failure_leaves_state[of sampleManager "''x''" 0 "Some 1" 5] x
  have 1: "Manager_MakeMove sampleManager ''x'' 0 (Some 1) 5
           = Some (failure ''Game not found'', sampleManager)" by blast
  from MakeMove_failure_leaves_state[of sampleManager "''h''" 0 "Some 1" 5] h
  have 2: "Manager_MakeMove sampleManager ''h'' 0 (Some 1) 5
           = Some (failure ''Game is not active'', sampleManager)" by simp
  from MakeMove_failure_leaves_state[of sampleManager "''g''" 0 "Some 2" 5] g st
  have 3: "Manager_MakeMove sampleManager ''g'' 0 (Some 2) 5
           = Some (failure ''Not your turn'', sampleManager)" by simp
  from MakeMove_failure_leaves_state[of sampleManager "''g''" 9 "Some 1" 5] g st
  have 4: "Manager_MakeMove sampleManager ''g'' 9 (Some 1) 5
           = Some (failure ''Invalid column'', sampleManager)" by simp
  from MakeMove_failure_leaves_state[of sampleManager "''g''" 0 "Some 1" 5] g st b
  have 5: "Manager_MakeMove sampleManager ''g'' 0 (Some 1) 5
           = Some (failure ''Column is full'', sampleManager)" by simp
  from 1 2 3 4 5 b show ?thesis by simp
qed

lemma ForfeitGame_not_active:
  "map_of (games m) gameID = None \<or>
   (\<exists>game. map_of (games m) gameID = Some game \<and> Status game \<noteq> ''active'') \<Longrightarrow>
   ForfeitGame m gameID pid notify now = (None, m)"
  by (auto simp: ForfeitGame_def)

lemma forfeitTimerFired_no_window:
  "map_of (reconnectWindows m) gameID = None \<Longrightarrow> forfeitTimerFired m gameID pid notify now = m"
  by (simp add: forfeitTimerFired_def)

text \<open>
  Claim C8. For a game of the map that has a reconnect window: a rejoin no later than
  the expiry under the name of a participant succeeds, stores the new connection for
  that participant and deletes the window, so that the forfeiture timer finds none when
  it fires later; a rejoin after the expiry fails with \<open>Reconnection window expired\<close>;
  a rejoin no later than the expiry under another name fails with
  \<open>Username does not match this game\<close> and changes nothing.
\<close>

theorem RejoinGame_window:
  assumes "map_of (games m) gameID = Some game"
    and "map_of (reconnectWindows m) gameID = Some w"
  shows "(now \<le> ExpiresAt w \<and> Username (Player1 game) = username \<longrightarrow>
            (let game' = game\<lparr>Player1 := (Player1 game)\<lparr>Conn := c\<rparr>\<rparr>;
                 m' = snd (RejoinGame m c username gameID now)
             in fst (RejoinGame m c username gameID now) = success game' \<and>
                m' = m\<lparr>games := AList.update gameID game' (games m),
                       reconnectWindows := AList.delete gameID (reconnectWindows m)\<rparr> \<and>
                map_of (games m') gameID = Some game' \<and>
                map_of (reconnectWindows m') gameID = None \<and>
                forfeitTimerFired m' gameID (PlayerID w) notify later = m')) \<and>
         (now \<le> ExpiresAt w \<and> Username (Player1 game) \<noteq> username \<and>
          Username (Player2 game) = username \<longrightarrow>
            (let game' = game\<lparr>Player2 := (Player2 game)\<lparr>Conn := c\<rparr>\<rparr>;
                 m' = snd (RejoinGame m c username gameID now)
             in fst (RejoinGame m c username gameID now) = success game' \<and>
                m' = m\<lparr>games := AList.update gameID game' (games m),
                       reconnectWindows := AList.delete gameID (reconnectWindows m)\<rparr> \<and>
                map_of (games m') gameID = Some game' \<and>
                map_of (reconnectWindows m') gameID = None \<and>
                forfeitTimerFired m' gameID (PlayerID w) notify later = m')) \<and>
         (ExpiresAt w < now \<longrightarrow>
            fst (RejoinGame m c username gameID now) = failure ''Reconnection window expired'') \<and>
         (now \<le> ExpiresAt w \<and> Username (Player1 game) \<noteq> username \<and>
          Username (Player2 game) \<noteq> username \<longrightarrow>
            RejoinGame m c username gameID now
              = (failure ''Username does not match this game'', m))"
proof (intro conjI impI)
  assume h: "now \<le> ExpiresAt w \<and> Username (Player1 game) = username"
  let ?g = "game\<lparr>Player1 := (Player1 game)\<lparr>Conn := c\<rparr>\<rparr>"
  have r: "RejoinGame m c username gameID now =
      (success ?g, m\<lparr>games := AList.update gameID ?g (games m),
                     reconnectWindows := AList.delete gameID (reconnectWindows m)\<rparr>)"
    using assms h by (simp add: RejoinGame_def Let_def)
  show "let game' = ?g; m' = snd (RejoinGame m c username gameID now)
        in fst (RejoinGame m c username gameID now) = success game' \<and>
           m' = m\<lparr>games := AList.update gameID game' (games m),
                  reconnectWindows := AList.delete gameID (reconnectWindows m)\<rparr> \<and>
           map_of (games m') gameID = Some game' \<and>
           map_of (reconnectWindows m') gameID = None \<and>
           forfeitTimerFired m' gameID (PlayerID w) notify later = m'"
    unfolding r Let_def
    by (simp add: update_conv' delete_conv' forfeitTimerFired_no_window)
next
  assume h: "now \<le> ExpiresAt w \<and> Username (Player1 game) \<noteq> username \<and>
          Username (Player2 game) = username"
  let ?g = "game\<lparr>Player2 := (Player2 game)\<lparr>Conn := c\<rparr>\<rparr>"
  have r: "RejoinGame m c username gameID now =
      (success ?g, m\<lparr>games := AList.update gameID ?g (games m),
                     reconnectWindows := AList.delete gameID (reconnectWindows m)\<rparr>)"
    using assms h by (simp add: RejoinGame_def Let_def)
  show "let game' = ?g; m' = snd (RejoinGame m c username gameID now)
        in fst (RejoinGame m c username gameID now) = success game' \<and>
           m' = m\<lparr>games := AList.update gameID game' (games m),
                  reconnectWindows := AList.delete gameID (reconnectWindows m)\<rparr> \<and>
           map_of (games m') gameID = Some game' \<and>
           map_of (reconnectWindows m') gameID = None \<and>
           forfeitTimerFired m' gameID (PlayerID w) notify later = m'"
    unfolding r Let_def
    by (simp add: update_conv' delete_conv' forfeitTimerFired_no_window)
next
  assume "ExpiresAt w < now"
  with assms show "fst (RejoinGame m c username gameID now)
      = failure ''Reconnection window expired''"
    by (simp add: RejoinGame_def Let_def split: prod.splits)
next
  assume "now \<le> ExpiresAt w \<and> Username (Player1 game) \<noteq> username \<and>
          Username (Player2 game) \<noteq> username"
  with assms show "RejoinGame m c username gameID now
              = (failure ''Username does not match this game'', m)"
    by (simp add: RejoinGame_def)
qed

theorem RejoinGame_window_witness:
  "fst (RejoinGame sampleManager (Some 7) ''alice'' ''g'' 10)
     = success (sampleGame\<lparr>Player1 := alice\<lparr>Conn := Some 7\<rparr>\<rparr>) \<and>
   map_of (reconnectWindows (snd (RejoinGame sampleManager (Some 7) ''alice'' ''g'' 10))) ''g'' = None \<and>
   fst (RejoinGame sampleManager (Some 8) ''bob'' ''g'' 30)
     = success (sampleGame\<lparr>Player2 := bob\<lparr>Conn := Some 8\<rparr>\<rparr>) \<and>
   fst (RejoinGame sampleManager (Some 7) ''alice'' ''g'' 31)
     = failure ''Reconnection window expired'' \<and>
   RejoinGame sampleManager (Some 9) ''eve'' ''g'' 10
     = (failure ''Username does not match this game'', sampleManager)"
proof -
  have g: "map_of (games sampleManager) ''g'' = Some sampleGame"
    and w: "map_of (reconnectWindows sampleManager) ''g'' = Some \<lparr>PlayerID = ''1'', ExpiresAt = 30\<rparr>"
    by (simp_all add: sampleManager_def)
  have n: "Username (Player1 sampleGame) = ''alice''" "Username (Player2 sampleGame) = ''bob''"
    "Player1 sampleGame = alice" "Player2 sampleGame = bob"
    by (simp_all add: sampleGame_def alice_def bob_def)
  from RejoinGame_window[OF g w, of 10 "''alice''" "Some 7" True 40] n
  have 1: "fst (RejoinGame sampleManager (Some 7) ''alice'' ''g'' 10)
     = success (sampleGame\<lparr>Player1 := alice\<lparr>Conn := Some 7\<rparr>\<rparr>) \<and>
     map_of (reconnectWindows (snd (RejoinGame sampleManager (Some 7) ''alice'' ''g'' 10))) ''g'' = None"
    by (simp add: Let_def delete_conv')
  from RejoinGame_window[OF g w, of 30 "''bob''" "Some 8" True 40] n
  have 2: "fst (RejoinGame sampleManager (Some 8) ''bob'' ''g'' 30)
     = success (sampleGame\<lparr>Player2 := bob\<lparr>Conn := Some 8\<rparr>\<rparr>)"
    by (simp add: Let_def)
  from RejoinGame_window[OF g w, of 31 "''alice''" "Some 7" True 40]
  have 3: "fst (RejoinGame sampleManager (Some 7) ''alice'' ''g'' 31)
     = failure ''Reconnection window expired''" by simp
  from RejoinGame_window[OF g w, of 10 "''eve''" "Some 9" True 40] n
  have 4: "RejoinGame sampleManager (Some 9) ''eve'' ''g'' 10
     = (failure ''Username does not match this game'', sampleManager)" by simp
  from 1 2 3 4 show ?thesis by simp
qed

subsection \<open>A move request always gets an answer\<close>

declare fullLoop.simps [simp del]

lemma fullLoop_wf:
  assumes "wf_board board" "0 \<le> col"
  shows "\<exists>full. fullLoop board col = Some full"
  using assms
proof (induction board col rule: fullLoop.induct)
  case (1 board col)
  show ?case
  proof (cases "col < COLS")
    case False
    then show ?thesis by (subst fullLoop.simps) auto
  next
    case c: True
    with "1.prems" have "in_grid 0 col" by (simp add: in_grid_def ROWS_def)
    from getCell_wf[OF "1.prems"(1) this]
    have g: "getCell board 0 col = Some (at board 0 col)" .
    show ?thesis
    proof (cases "at board 0 col")
      case None
      with c g show ?thesis by (subst fullLoop.simps) auto
    next
      case (Some other)
      from "1.prems" have "0 \<le> col + 1" by simp
      from "1.IH"[OF c g Some "1.prems"(1) this] c g Some show ?thesis
        by (subst fullLoop.simps) simp
    qed
  qed
qed

lemma Manager_MakeMove_returns:
  assumes "\<forall>game. map_of (games m) gameID = Some game \<longrightarrow> wf_board (Board game)"
  shows "\<exists>r m'. Manager_MakeMove m gameID column c now = Some (r, m')"
proof (cases "map_of (games m) gameID")
  case None
  then show ?thesis by (simp add: Manager_MakeMove_def)
next
  case (Some game)
  with assms have wf: "wf_board (Board game)" by simp
  show ?thesis
  proof (cases "Status game \<noteq> ''active'' \<or> IsBot (sideToMove game) \<or>
                Conn (sideToMove game) \<noteq> c \<or> column < 0 \<or> column \<ge> 7")
    case True
    with Some show ?thesis by (auto simp: Manager_MakeMove_def)
  next
    case ok: False
    from MakeMove_wf[OF wf, of column "CurrentPlayer game"] ok
    consider "MakeMove (Board game) column (CurrentPlayer game) =
                Some (Board game, \<lparr>Success = False, Message = ''Column is full'', Row = 0\<rparr>)"
      | r where "lowest_empty (Board game) column r"
          "MakeMove (Board game) column (CurrentPlayer game) =
             Some (setCell (Board game) r column (Some (CurrentPlayer game)),
                   \<lparr>Success = True, Message = [], Row = r\<rparr>)"
      by (auto simp: in_grid_def ROWS_def COLS_def)
    then show ?thesis
    proof cases
      case 1
      with Some ok show ?thesis by (simp add: Manager_MakeMove_def)
    next
      case 2
      let ?b = "setCell (Board game) r column (Some (CurrentPlayer game))"
      have wf': "wf_board ?b" using wf by (rule wf_setCell)
      from ok have "in_grid 0 column" by (simp add: in_grid_def ROWS_def COLS_def)
      with 2(1) have "in_grid r column" by (rule lowest_empty_in_grid)
      from CheckWin_decides[OF wf' this] obtain w where
        w: "CheckWin ?b r column = Some w" by blast
      from fullLoop_wf[OF wf', of 0] obtain full where
        f: "IsBoardFull ?b = Some full" by (auto simp: IsBoardFull_def)
      obtain res where res: "Manager_MakeMove m gameID column c now = Some res"
        using Some ok 2(2) w f
        by (cases "Won w"; cases full) (simp_all add: Manager_MakeMove_def Let_def)
      then show ?thesis by (cases res) simp
    qed
  qed
qed

subsection \<open>Finished games and the map of live games\<close>

text \<open>
  A successful move leaves its game in the map, also when the move ends the game. A
  finished game of the map is left as it is by every move, forfeit, timer and
  disconnect, and a rejoin keeps it in the map: no operation deletes it. A forfeit of an
  active game deletes it, and a second forfeit finds nothing.
\<close>

lemma games_commitMove:
  "games (snd (commitMove m gameID game upserts column row)) = AList.update gameID game (games m)"
  by (simp add: commitMove_def Let_def emit_def)

lemma Manager_MakeMove_other_games:
  assumes "Manager_MakeMove m gameID column c now = Some (r, m')" "gid \<noteq> gameID"
  shows "map_of (games m') gid = map_of (games m) gid"
  using assms
  by (auto simp: Manager_MakeMove_def Let_def games_commitMove update_conv'
           split: if_splits option.splits bool.splits prod.splits
           dest!: arg_cong[where f = snd])

lemma BotMakeMove_other_games:
  assumes "BotMakeMove m gameID column now = Some (r, m')" "gid \<noteq> gameID"
  shows "map_of (games m') gid = map_of (games m) gid"
  using assms
  by (auto simp: BotMakeMove_def Let_def games_commitMove update_conv'
           split: if_splits option.splits bool.splits prod.splits
           dest!: arg_cong[where f = snd])

lemma ForfeitGame_other_games:
  assumes "gid \<noteq> gameID"
  shows "map_of (games (snd (ForfeitGame m gameID pid notify now))) gid = map_of (games m) gid"
  using assms
  by (simp add: ForfeitGame_def Let_def emit_def delete_conv' split: option.splits)

lemma games_disconnectGame: "games (disconnectGame c now m entry) = games m"
  by (cases entry) (simp add: disconnectGame_def Let_def emit_def split: option.splits prod.splits)

lemma games_foldl_disconnect: "games (foldl (disconnectGame c now) m es) = games m"
  by (induction es arbitrary: m) (simp_all add: games_disconnectGame)

lemma games_HandleDisconnect: "games (HandleDisconnect m c now) = games m"
  by (simp add: HandleDisconnect_def games_foldl_disconnect)

lemma finished_game_stays:
  assumes "map_of (games m) gid = Some g" "Status g = ''finished''"
  shows "Manager_MakeMove m gameID column c now = Some (r, m') \<Longrightarrow> map_of (games m') gid = Some g"
    and "BotMakeMove m gameID column now = Some (r, m') \<Longrightarrow> map_of (games m') gid = Some g"
    and "map_of (games (snd (ForfeitGame m gameID pid notify now))) gid = Some g"
    and "map_of (games (forfeitTimerFired m gameID pid notify now)) gid = Some g"
    and "map_of (games (HandleDisconnect m c now)) gid = Some g"
    and "map_of (games (snd (RejoinGame m c username gameID now))) gid \<noteq> None"
proof -
  have ff: "map_of (games (snd (ForfeitGame m' gameID pid' n' now))) gid = Some g"
    if "games m' = games m" for m' pid' n'
  proof (cases "gid = gameID")
    case True
    with assms that show ?thesis by (simp add: ForfeitGame_def)
  next
    case False
    with assms that show ?thesis by (simp add: ForfeitGame_other_games)
  qed
  show "map_of (games (snd (ForfeitGame m gameID pid notify now))) gid = Some g"
    by (rule ff) simp
  show "map_of (games (forfeitTimerFired m gameID pid notify now)) gid = Some g"
    using assms(1) ff[of m pid notify]
    by (auto simp: forfeitTimerFired_def emit_def split: option.splits prod.splits)
  show "map_of (games (HandleDisconnect m c now)) gid = Some g"
    using assms(1) by (simp add: games_HandleDisconnect)
  show "map_of (games (snd (RejoinGame m c username gameID now))) gid \<noteq> None"
  proof (cases "\<exists>game w. map_of (games m) gameID = Some game \<and>
                  map_of (reconnectWindows m) gameID = Some w \<and> ExpiresAt w < now")
    case True
    then obtain game w where "map_of (games m) gameID = Some game"
      "map_of (reconnectWindows m) gameID = Some w" "ExpiresAt w < now" by blast
    then have "snd (RejoinGame m c username gameID now) =
        snd (ForfeitGame (m\<lparr>reconnectWindows := AList.delete gameID (reconnectWindows m)\<rparr>)
               gameID (PlayerID w) False now)"
      by (simp add: RejoinGame_def Let_def split: prod.splits)
    with ff[of "m\<lparr>reconnectWindows := AList.delete gameID (reconnectWindows m)\<rparr>"
              "PlayerID w" False]
    show ?thesis by simp
  next
    case False
    with assms(1) show ?thesis
      by (auto simp: RejoinGame_def Let_def update_conv' split: option.splits if_splits)
  qed
  show "map_of (games m') gid = Some g"
    if mm: "Manager_MakeMove m gameID column c now = Some (r, m')"
  proof (cases "gid = gameID")
    case True
    with assms mm show ?thesis by (auto simp: Manager_MakeMove_def)
  next
    case False
    with assms Manager_MakeMove_other_games[OF mm] show ?thesis by simp
  qed
  show "map_of (games m') gid = Some g"
    if mm: "BotMakeMove m gameID column now = Some (r, m')"
  proof (cases "gid = gameID")
    case True
    with assms mm show ?thesis by (auto simp: BotMakeMove_def)
  next
    case False
    with assms BotMakeMove_other_games[OF mm] show ?thesis by simp
  qed
qed


lemma fst_commitMove: "fst (commitMove m gameID game upserts column row) = success game"
  by (simp add: commitMove_def Let_def)

lemma Manager_MakeMove_success_keeps_game:
  assumes "Manager_MakeMove m gameID column c now = Some (r, m')" "SuccessG r"
  shows "\<exists>g. GameG r = Some g \<and> map_of (games m') gameID = Some g"
proof -
  from assms have "\<exists>game ups row. commitMove m gameID game ups column row = (r, m')"
    by (auto simp: Manager_MakeMove_def Let_def split: if_splits option.splits bool.splits)
       blast+
  then obtain game ups row where c: "commitMove m gameID game ups column row = (r, m')"
    by blast
  from arg_cong[OF c, of fst] have "r = success game"
    by (simp add: fst_commitMove)
  moreover from arg_cong[OF c, of snd] games_commitMove[of m gameID game ups column row]
  have "games m' = AList.update gameID game (games m)" by simp
  ultimately show ?thesis by (simp add: success_def update_conv')
qed

lemma ForfeitGame_evicts_once:
  assumes "map_of (games m) gameID = Some g" "Status g = ''active''"
  shows "map_of (games (snd (ForfeitGame m gameID pid notify now))) gameID = None"
    and "ForfeitGame (snd (ForfeitGame m gameID pid notify now)) gameID pid' notify' later
           = (None, snd (ForfeitGame m gameID pid notify now))"
proof -
  show gone: "map_of (games (snd (ForfeitGame m gameID pid notify now))) gameID = None"
    using assms by (simp add: ForfeitGame_def Let_def emit_def delete_conv')
  then show "ForfeitGame (snd (ForfeitGame m gameID pid notify now)) gameID pid' notify' later
           = (None, snd (ForfeitGame m gameID pid notify now))"
    by (rule ForfeitGame_not_active[OF disjI1])
qed

text \<open>
  Claim C2, evaluated on a run. After the drops 0, 1, 0, 1, 0, 1, 6 the first player
  disconnects, which opens a reconnect window, and the second player completes four in
  column 1. The game is finished and won, and it is still in the map: \<^verbatim>\<open>ForfeitGame\<close>
  and the forfeiture timer return without deleting it, and a rejoin of the first player
  then stores a new connection in the finished game.
\<close>

theorem finished_by_win_stays_live:
  "(case aliceDropsOut of
      None \<Rightarrow> False
    | Some m0 \<Rightarrow>
        map_of (reconnectWindows m0) ''g'' = Some \<lparr>PlayerID = ''1'', ExpiresAt = 38\<rparr> \<and>
        (case Manager_MakeMove m0 ''g'' 1 (Some 2) 10 of
           None \<Rightarrow> False
         | Some (r, m1) \<Rightarrow>
             SuccessG r \<and>
             (case map_of (games m1) ''g'' of
                None \<Rightarrow> False
              | Some g1 \<Rightarrow>
                  Status g1 = ''finished'' \<and> Winner g1 = ''2'' \<and>
                  ForfeitGame m1 ''g'' ''1'' True 40 = (None, m1) \<and>
                  forfeitTimerFired m1 ''g'' ''1'' True 40 = m1 \<and>
                  (case RejoinGame m1 (Some 7) ''alice'' ''g'' 20 of
                     (r2, m2) \<Rightarrow>
                       SuccessG r2 \<and>
                       map_of (games m2) ''g''
                         = Some (g1\<lparr>Player1 := (Player1 g1)\<lparr>Conn := Some 7\<rparr>\<rparr>) \<and>
                       g1\<lparr>Player1 := (Player1 g1)\<lparr>Conn := Some 7\<rparr>\<rparr> \<noteq> g1))))"
  by code_simp

section \<open>Properties of the opponent policy\<close>

lemma window_inside_iff:
  "window_inside row col dr dc \<longleftrightarrow>
     (\<forall>j. 0 \<le> j \<and> j \<le> 3 \<longrightarrow> in_grid (row + j * dr) (col + j * dc))"
  by (simp add: window_inside_def list_all_upto)

lemma lineLoop_outside:
  assumes "wf_board board" "i \<le> j" "j < 4" "\<not> in_grid (sr + j * dr) (sc + j * dc)"
  shows "lineLoop board sr sc dr dc a b i pc oc ec = Some 0"
  using assms
proof (induction board sr sc dr dc a b i pc oc ec rule: lineLoop.induct)
  case (1 board sr sc dr dc a b i pc oc ec)
  from "1.prems" have i: "i < WIN_LENGTH" by (simp add: WIN_LENGTH_def)
  let ?row = "sr + i * dr" and ?col = "sc + i * dc"
  show ?case
  proof (cases "?row < 0 \<or> ?row \<ge> ROWS \<or> ?col < 0 \<or> ?col \<ge> COLS")
    case True
    with i show ?thesis by (subst lineLoop.simps) (simp add: Let_def)
  next
    case inb: False
    then have ing: "in_grid ?row ?col" by (simp add: in_grid_def)
    with "1.prems" have "i \<noteq> j" by auto
    with "1.prems" have ij: "i + 1 \<le> j" by simp
    from getCell_wf[OF "1.prems"(1) ing]
    have g: "getCell board ?row ?col = Some (at board ?row ?col)" .
    consider "at board ?row ?col = Some a"
      | "at board ?row ?col \<noteq> Some a" "at board ?row ?col = Some b"
      | "at board ?row ?col \<noteq> Some a" "at board ?row ?col \<noteq> Some b" by blast
    then show ?thesis
    proof cases
      case c: 1
      from "1.IH"(1)[OF i refl refl inb g c "1.prems"(1) ij "1.prems"(3,4)] i inb g c
      show ?thesis by (subst lineLoop.simps) (simp add: Let_def)
    next
      case c: 2
      from "1.IH"(2)[OF i refl refl inb g c "1.prems"(1) ij "1.prems"(3,4)] i inb g c
      show ?thesis by (subst lineLoop.simps) (simp add: Let_def)
    next
      case c: 3
      from "1.IH"(3)[OF i refl refl inb g c "1.prems"(1) ij "1.prems"(3,4)] i inb g c
      show ?thesis by (subst lineLoop.simps) (simp add: Let_def)
    qed
  qed
qed

lemma evaluateLine_window:
  assumes "wf_board board"
  shows "\<exists>v. evaluateLine board sr sc dr dc a b = Some v \<and>
              - 10000 * (if window_inside sr sc dr dc then 1 else 0) \<le> v"
proof (cases "window_inside sr sc dr dc")
  case True
  with evaluateLine_wf[OF assms, of sr sc dr dc a b] show ?thesis by auto
next
  case False
  then obtain j where "0 \<le> j" "j \<le> 3" "\<not> in_grid (sr + j * dr) (sc + j * dc)"
    by (auto simp: window_inside_iff)
  then have "lineLoop board sr sc dr dc a b 0 0 0 0 = Some 0"
    by (intro lineLoop_outside[OF assms, of 0 j]) simp_all
  with False show ?thesis by (simp add: evaluateLine_def)
qed

lemma scoreCols_lower:
  assumes "wf_board board" "0 \<le> col"
  shows "\<exists>v. scoreCols board a b row col score = Some v \<and>
              score - 10000 * windowsFrom row col \<le> v"
  using assms
proof (induction board a b row col score rule: scoreCols.induct)
  case (1 board a b row col score)
  show ?case
  proof (cases "col < COLS")
    case False
    then have "[col..COLS - 1] = []" by simp
    with False show ?thesis
      by (subst scoreCols.simps) (simp add: windowsFrom_def)
  next
    case c: True
    from evaluateLine_window[OF "1.prems"(1)] obtain h v d e where
      ev: "evaluateLine board row col 0 1 a b = Some h"
          "evaluateLine board row col 1 0 a b = Some v"
          "evaluateLine board row col 1 1 a b = Some d"
          "evaluateLine board row col 1 (- 1) a b = Some e"
      and lo: "- 10000 * (if window_inside row col 0 1 then 1 else 0) \<le> h"
          "- 10000 * (if window_inside row col 1 0 then 1 else 0) \<le> v"
          "- 10000 * (if window_inside row col 1 1 then 1 else 0) \<le> d"
          "- 10000 * (if window_inside row col 1 (- 1) then 1 else 0) \<le> e"
      by metis
    from "1.prems" have c0: "0 \<le> col + 1" by simp
    from "1.IH"[OF c ev "1.prems"(1) c0] obtain r where
      r: "scoreCols board a b row (col + 1) (score + h + v + d + e) = Some r"
         "score + h + v + d + e - 10000 * windowsFrom row (col + 1) \<le> r" by blast
    have unroll: "windowsFrom row col = windowsAt row col + windowsFrom row (col + 1)"
      using c by (simp add: windowsFrom_def upto_rec1[of col])
    have cell: "- 10000 * windowsAt row col \<le> h + v + d + e"
      using lo unfolding windowsAt_def by (simp split: if_splits)
    have "score - 10000 * windowsFrom row col \<le> r"
      using r(2) cell unfolding unroll by (simp add: algebra_simps)
    with r(1) c ev show ?thesis by (subst scoreCols.simps) simp
  qed
qed

lemma scoreRows_lower:
  assumes "wf_board board"
  shows "\<exists>v. scoreRows board a b row score = Some v \<and>
              score - 10000 * windowsBelow row \<le> v"
  using assms
proof (induction board a b row score rule: scoreRows.induct)
  case (1 board a b row score)
  show ?case
  proof (cases "row < ROWS")
    case False
    then have "[row..ROWS - 1] = []" by simp
    with False show ?thesis
      by (subst scoreRows.simps) (simp add: windowsBelow_def)
  next
    case r: True
    from scoreCols_lower[OF "1.prems", of 0 a b row score] obtain s' where
      s': "scoreCols board a b row 0 score = Some s'"
          "score - 10000 * windowsFrom row 0 \<le> s'" by auto
    from "1.IH"[OF r s'(1) "1.prems"] obtain v where
      v: "scoreRows board a b (row + 1) s' = Some v" "s' - 10000 * windowsBelow (row + 1) \<le> v"
      by blast
    have unroll: "windowsBelow row = windowsFrom row 0 + windowsBelow (row + 1)"
      using r by (simp add: windowsBelow_def upto_rec1[of row])
    have "score - 10000 * windowsBelow row \<le> v"
      using s'(2) v(2) unfolding unroll by (simp add: algebra_simps)
    with v(1) r s'(1) show ?thesis by (subst scoreRows.simps) simp
  qed
qed

lemma windows_total: "windowsBelow 0 = 69"
  by code_simp

lemma EvaluatePosition_lower:
  assumes "wf_board board"
  shows "\<exists>v. EvaluatePosition board a b = Some v \<and> - 690000 \<le> v"
  using scoreRows_lower[OF assms, of a b 0 0]
  by (simp add: EvaluatePosition_def windows_total)

lemma copyBoard_id [simp]: "copyBoard board = board"
  by (simp add: copyBoard_def)

lemma absInt_abs [simp]: "absInt x = \<bar>x\<bar>"
  by (simp add: absInt_def)

declare validLoop.simps [simp del]

lemma validLoop_wf:
  assumes "wf_board board" "0 \<le> col"
  shows "validLoop board col acc =
           Some (acc @ filter (\<lambda>c. at board 0 c = None) [col..COLS - 1])"
  using assms
proof (induction board col acc rule: validLoop.induct)
  case (1 board col validMoves)
  show ?case
  proof (cases "col < COLS")
    case False
    then have "[col..COLS - 1] = []" by simp
    with False show ?thesis by (subst validLoop.simps) simp
  next
    case c: True
    with "1.prems" have "in_grid 0 col" by (simp add: in_grid_def ROWS_def)
    from getCell_wf[OF "1.prems"(1) this]
    have g: "getCell board 0 col = Some (at board 0 col)" .
    have unroll: "[col..COLS - 1] = col # [col + 1..COLS - 1]"
      using c by (simp add: upto_rec1[of col])
    from "1.prems" have c0: "0 \<le> col + 1" by simp
    show ?thesis
    proof (cases "at board 0 col")
      case None
      from "1.IH"(1)[OF c g None "1.prems"(1) c0] c g None show ?thesis
        by (subst validLoop.simps) (simp add: unroll)
    next
      case (Some other)
      from "1.IH"(2)[OF c g Some "1.prems"(1) c0] c g Some show ?thesis
        by (subst validLoop.simps) (simp add: unroll)
    qed
  qed
qed

lemma GetValidMoves_wf: "wf_board board \<Longrightarrow> GetValidMoves board = Some (legalColumns board)"
  using validLoop_wf[of board 0 "[]"] by (simp add: GetValidMoves_def legalColumns_def)

lemma legalColumns_iff:
  "c \<in> set (legalColumns board) \<longleftrightarrow> 0 \<le> c \<and> c < COLS \<and> at board 0 c = None"
  by (auto simp: legalColumns_def)

lemma legalColumns_sorted: "sorted_wrt (<) (legalColumns board)"
  unfolding legalColumns_def by (rule sorted_wrt_filter) simp

lemma legal_drop:
  assumes "wf_board board" "c \<in> set (legalColumns board)"
  shows "\<exists>board' r. MakeMove board c side = Some (board', r) \<and> Success r \<and>
           wf_board board' \<and> in_grid (Row r) c"
proof -
  from assms(2) have g: "in_grid 0 c" and e: "at board 0 c = None"
    by (auto simp: legalColumns_iff in_grid_def ROWS_def)
  from e have nf: "\<not> column_full board c"
    by (auto simp: column_full_def list_all_upto ROWS_def)
  from MakeMove_wf[OF assms(1), of c side] g nf obtain r where
    r: "lowest_empty board c r"
       "MakeMove board c side =
          Some (setCell board r c (Some side), \<lparr>Success = True, Message = [], Row = r\<rparr>)"
    by auto
  from lowest_empty_in_grid[OF r(1) g] wf_setCell[OF assms(1)] r(2)
  show ?thesis by simp
qed

lemma legal_check:
  assumes "wf_board board" "c \<in> set (legalColumns board)"
  shows "\<exists>board' r w. MakeMove board c side = Some (board', r) \<and> Success r \<and>
           CheckWin board' (Row r) c = Some w \<and> Won w = dropWins board c side"
proof -
  from legal_drop[OF assms, of side] obtain board' r where
    d: "MakeMove board c side = Some (board', r)" "Success r" "wf_board board'"
       "in_grid (Row r) c" by blast
  from CheckWin_decides[OF d(3,4)] obtain w where
    w: "CheckWin board' (Row r) c = Some w" "Won w \<longleftrightarrow> four_through board' (Row r) c" by blast
  from d w show ?thesis by (simp add: dropWins_def)
qed

lemma legal_score:
  assumes "wf_board board" "c \<in> set (legalColumns board)"
  shows "\<exists>board' r s. MakeMove board c me = Some (board', r) \<and> Success r \<and>
           EvaluatePosition board' me foe = Some s \<and>
           dropScore board c me foe = s + (3 - \<bar>c - 3\<bar>) * 5 \<and>
           - 999999 < dropScore board c me foe"
proof -
  from legal_drop[OF assms, of me] obtain board' r where
    d: "MakeMove board c me = Some (board', r)" "Success r" "wf_board board'" by blast
  from EvaluatePosition_lower[OF d(3), of me foe] obtain s where
    s: "EvaluatePosition board' me foe = Some s" "- 690000 \<le> s" by blast
  from assms(2) have "0 \<le> c" "c < 7" by (auto simp: legalColumns_iff COLS_def)
  then have "0 \<le> (3 - \<bar>c - 3\<bar>) * 5" by simp
  with d s show ?thesis by (simp add: dropScore_def)
qed

lemma blockLoop_find:
  assumes "wf_board board" "set cs \<subseteq> set (legalColumns board)"
  shows "blockLoop board foe cs =
           Some (case find (\<lambda>c. dropWins board c foe) cs of None \<Rightarrow> - 1 | Some c \<Rightarrow> c)"
  using assms(2)
proof (induction cs)
  case Nil
  then show ?case by simp
next
  case (Cons c cs)
  then have c: "c \<in> set (legalColumns board)" and cs: "set cs \<subseteq> set (legalColumns board)"
    by simp_all
  from legal_check[OF assms(1) c, of foe] obtain board' r w where
    "MakeMove board c foe = Some (board', r)" "Success r"
    "CheckWin board' (Row r) c = Some w" "Won w = dropWins board c foe" by blast
  with Cons.IH[OF cs] show ?case by simp
qed

lemma winLoop_find:
  assumes "wf_board board" "set cs \<subseteq> set (legalColumns board)"
  shows "winLoop board me cs = Some (find (\<lambda>c. dropWins board c me) cs)"
  using assms(2)
proof (induction cs)
  case Nil
  then show ?case by simp
next
  case (Cons c cs)
  then have c: "c \<in> set (legalColumns board)" and cs: "set cs \<subseteq> set (legalColumns board)"
    by simp_all
  from legal_check[OF assms(1) c, of me] obtain board' r w where
    "MakeMove board c me = Some (board', r)" "Success r"
    "CheckWin board' (Row r) c = Some w" "Won w = dropWins board c me" by blast
  with Cons.IH[OF cs] show ?case by simp
qed

lemma bestLoop_step:
  assumes "wf_board board" "c \<in> set (legalColumns board)"
  shows "bestLoop board me foe (c # cs) bc bs =
           (if dropScore board c me foe > bs
            then bestLoop board me foe cs c (dropScore board c me foe)
            else bestLoop board me foe cs bc bs)"
proof -
  from legal_score[OF assms, of me foe] obtain board' r s where
    "MakeMove board c me = Some (board', r)" "Success r"
    "EvaluatePosition board' me foe = Some s"
    "dropScore board c me foe = s + (3 - \<bar>c - 3\<bar>) * 5" by blast
  then show ?thesis by (simp add: Let_def)
qed

lemma bestLoop_spec:
  assumes "wf_board board" "set cs \<subseteq> set (legalColumns board)"
  shows "\<exists>r. bestLoop board me foe cs bc bs = Some r \<and>
           ((r = bc \<and> (\<forall>c\<in>set cs. dropScore board c me foe \<le> bs)) \<or>
            (\<exists>ys zs. cs = ys @ r # zs \<and> bs < dropScore board r me foe \<and>
               (\<forall>c\<in>set ys. dropScore board c me foe < dropScore board r me foe) \<and>
               (\<forall>c\<in>set zs. dropScore board c me foe \<le> dropScore board r me foe)))"
  using assms(2)
proof (induction cs arbitrary: bc bs)
  case Nil
  then show ?case by simp
next
  case (Cons c cs)
  then have c: "c \<in> set (legalColumns board)" and cs: "set cs \<subseteq> set (legalColumns board)"
    by simp_all
  let ?f = "\<lambda>c. dropScore board c me foe"
  note step = bestLoop_step[OF assms(1) c, of me foe cs bc bs]
  show ?case
  proof (cases "?f c > bs")
    case True
    from Cons.IH[OF cs, of c "?f c"] obtain r where
      r: "bestLoop board me foe cs c (?f c) = Some r"
      and d: "(r = c \<and> (\<forall>x\<in>set cs. ?f x \<le> ?f c)) \<or>
            (\<exists>ys zs. cs = ys @ r # zs \<and> ?f c < ?f r \<and>
               (\<forall>x\<in>set ys. ?f x < ?f r) \<and> (\<forall>x\<in>set zs. ?f x \<le> ?f r))" by blast
    from d have "\<exists>ys zs. c # cs = ys @ r # zs \<and> bs < ?f r \<and>
               (\<forall>x\<in>set ys. ?f x < ?f r) \<and> (\<forall>x\<in>set zs. ?f x \<le> ?f r)"
    proof
      assume "r = c \<and> (\<forall>x\<in>set cs. ?f x \<le> ?f c)"
      with True show ?thesis by (intro exI[of _ "[]"] exI[of _ cs]) simp
    next
      assume "\<exists>ys zs. cs = ys @ r # zs \<and> ?f c < ?f r \<and>
               (\<forall>x\<in>set ys. ?f x < ?f r) \<and> (\<forall>x\<in>set zs. ?f x \<le> ?f r)"
      then obtain ys zs where "cs = ys @ r # zs" "?f c < ?f r"
        "\<forall>x\<in>set ys. ?f x < ?f r" "\<forall>x\<in>set zs. ?f x \<le> ?f r" by blast
      with True show ?thesis by (intro exI[of _ "c # ys"] exI[of _ zs]) simp
    qed
    with r True step show ?thesis by simp
  next
    case False
    from Cons.IH[OF cs, of bc bs] obtain r where
      r: "bestLoop board me foe cs bc bs = Some r"
      and d: "(r = bc \<and> (\<forall>x\<in>set cs. ?f x \<le> bs)) \<or>
            (\<exists>ys zs. cs = ys @ r # zs \<and> bs < ?f r \<and>
               (\<forall>x\<in>set ys. ?f x < ?f r) \<and> (\<forall>x\<in>set zs. ?f x \<le> ?f r))" by blast
    from d have "(r = bc \<and> (\<forall>x\<in>set (c # cs). ?f x \<le> bs)) \<or>
            (\<exists>ys zs. c # cs = ys @ r # zs \<and> bs < ?f r \<and>
               (\<forall>x\<in>set ys. ?f x < ?f r) \<and> (\<forall>x\<in>set zs. ?f x \<le> ?f r))"
    proof
      assume "r = bc \<and> (\<forall>x\<in>set cs. ?f x \<le> bs)"
      with False show ?thesis by simp
    next
      assume "\<exists>ys zs. cs = ys @ r # zs \<and> bs < ?f r \<and>
               (\<forall>x\<in>set ys. ?f x < ?f r) \<and> (\<forall>x\<in>set zs. ?f x \<le> ?f r)"
      then obtain ys zs where "cs = ys @ r # zs" "bs < ?f r"
        "\<forall>x\<in>set ys. ?f x < ?f r" "\<forall>x\<in>set zs. ?f x \<le> ?f r" by blast
      with False have "c # cs = (c # ys) @ r # zs \<and> bs < ?f r \<and>
               (\<forall>x\<in>set (c # ys). ?f x < ?f r) \<and> (\<forall>x\<in>set zs. ?f x \<le> ?f r)" by simp
      then show ?thesis by blast
    qed
    with r False step show ?thesis by simp
  qed
qed

lemma find_first:
  "find P xs = Some x \<Longrightarrow> \<exists>ys zs. xs = ys @ x # zs \<and> P x \<and> (\<forall>y\<in>set ys. \<not> P y)"
proof (induction xs)
  case Nil
  then show ?case by simp
next
  case (Cons a xs)
  show ?case
  proof (cases "P a")
    case True
    with Cons.prems show ?thesis by (intro exI[of _ "[]"] exI[of _ xs]) simp
  next
    case False
    with Cons obtain ys zs where "xs = ys @ x # zs" "P x" "\<forall>y\<in>set ys. \<not> P y" by auto
    with False show ?thesis by (intro exI[of _ "a # ys"] exI[of _ zs]) simp
  qed
qed

lemma sorted_split_less:
  assumes "sorted_wrt (<) (ys @ r # zs)" "c \<in> set (ys @ r # zs)" "c < (r::int)"
  shows "c \<in> set ys"
  using assms by (auto simp: sorted_wrt_append)

lemma first_hit:
  assumes "find P (legalColumns board) = Some col"
  shows "col \<in> set (legalColumns board) \<and> P col \<and>
         (\<forall>c\<in>set (legalColumns board). c < col \<longrightarrow> \<not> P c)"
proof -
  from find_first[OF assms] obtain ys zs where
    s: "legalColumns board = ys @ col # zs" "P col" "\<forall>y\<in>set ys. \<not> P y" by blast
  have "\<not> P c" if "c \<in> set (legalColumns board)" "c < col" for c
  proof -
    from legalColumns_sorted[of board] that have "c \<in> set ys"
      unfolding s(1) by (rule sorted_split_less)
    with s(3) show ?thesis by blast
  qed
  with s show ?thesis by auto
qed

lemma chooseColumn_policy:
  assumes "wf_board board" "legalColumns board \<noteq> []"
  shows "\<exists>col. chooseColumn board foe me (legalColumns board) = Some col \<and>
           col \<in> set (legalColumns board) \<and>
           (if \<exists>c\<in>set (legalColumns board). dropWins board c foe
            then dropWins board col foe \<and>
                 (\<forall>c\<in>set (legalColumns board). c < col \<longrightarrow> \<not> dropWins board c foe)
            else if \<exists>c\<in>set (legalColumns board). dropWins board c me
            then dropWins board col me \<and>
                 (\<forall>c\<in>set (legalColumns board). c < col \<longrightarrow> \<not> dropWins board c me)
            else \<forall>c\<in>set (legalColumns board).
                   dropScore board c me foe \<le> dropScore board col me foe \<and>
                   (c < col \<longrightarrow> dropScore board c me foe < dropScore board col me foe))"
proof -
  let ?vs = "legalColumns board"
  note bl = blockLoop_find[OF assms(1) subset_refl, of foe]
  note wl = winLoop_find[OF assms(1) subset_refl, of me]
  show ?thesis
  proof (cases "find (\<lambda>c. dropWins board c foe) ?vs")
    case (Some col)
    from first_hit[OF Some] have h: "col \<in> set ?vs" "dropWins board col foe"
      "\<forall>c\<in>set ?vs. c < col \<longrightarrow> \<not> dropWins board c foe" by auto
    from h(1) have "col \<noteq> - 1" by (auto simp: legalColumns_iff)
    with bl Some have "chooseColumn board foe me ?vs = Some col"
      by (simp add: chooseColumn_def)
    with h show ?thesis by auto
  next
    case noblock: None
    then have nb: "\<not> (\<exists>c\<in>set ?vs. dropWins board c foe)"
      by (simp add: find_None_iff)
    show ?thesis
    proof (cases "find (\<lambda>c. dropWins board c me) ?vs")
      case (Some col)
      from first_hit[OF Some] have h: "col \<in> set ?vs" "dropWins board col me"
        "\<forall>c\<in>set ?vs. c < col \<longrightarrow> \<not> dropWins board c me" by auto
      from bl wl noblock Some have "chooseColumn board foe me ?vs = Some col"
        by (simp add: chooseColumn_def)
      with h nb show ?thesis by auto
    next
      case nowin: None
      then have nw: "\<not> (\<exists>c\<in>set ?vs. dropWins board c me)"
        by (simp add: find_None_iff)
      let ?f = "\<lambda>c. dropScore board c me foe"
      from bestLoop_spec[OF assms(1) subset_refl, of me foe "hd ?vs" "- 999999"]
      obtain r where r: "bestLoop board me foe ?vs (hd ?vs) (- 999999) = Some r"
        and d: "(r = hd ?vs \<and> (\<forall>c\<in>set ?vs. ?f c \<le> - 999999)) \<or>
            (\<exists>ys zs. ?vs = ys @ r # zs \<and> - 999999 < ?f r \<and>
               (\<forall>c\<in>set ys. ?f c < ?f r) \<and> (\<forall>c\<in>set zs. ?f c \<le> ?f r))" by blast
      from assms(2) have "hd ?vs \<in> set ?vs" by simp
      from legal_score[OF assms(1) this, of me foe] have "- 999999 < ?f (hd ?vs)" by blast
      with \<open>hd ?vs \<in> set ?vs\<close> have "\<not> (\<forall>c\<in>set ?vs. ?f c \<le> - 999999)" by force
      with d obtain ys zs where s: "?vs = ys @ r # zs"
        "\<forall>c\<in>set ys. ?f c < ?f r" "\<forall>c\<in>set zs. ?f c \<le> ?f r" by blast
      have mem: "r \<in> set ?vs" by (subst s(1)) simp
      have best: "?f c \<le> ?f r \<and> (c < r \<longrightarrow> ?f c < ?f r)" if c: "c \<in> set ?vs" for c
      proof
        from c have "c \<in> set ys \<or> c = r \<or> c \<in> set zs" by (subst (asm) s(1)) auto
        with s(2,3) show "?f c \<le> ?f r" by force
        show "c < r \<longrightarrow> ?f c < ?f r"
        proof
          assume "c < r"
          with legalColumns_sorted[of board] c have "c \<in> set ys"
            unfolding s(1) by (rule sorted_split_less)
          with s(2) show "?f c < ?f r" by blast
        qed
      qed
      from bl wl noblock nowin r have "chooseColumn board foe me ?vs = Some r"
        by (simp add: chooseColumn_def)
      with mem nb nw best show ?thesis by auto
    qed
  qed
qed

text \<open>
  Claim C4. On a 6 by 7 board with at least one legal column, \<^verbatim>\<open>GetValidMoves\<close> returns
  the legal columns from left to right and the policy returns one of them: the leftmost
  column in which a drop of the opponent wins, if there is one; otherwise the leftmost
  column in which a drop of the bot wins, if there is one; otherwise a column whose
  score (the evaluation after the bot's drop plus \<open>(3 - |column - 3|) * 5\<close>) is maximal
  and strictly larger than the score of every legal column to its left. That column is
  the one \<^verbatim>\<open>Player.MakeMove\<close> plays when the game is active and it is the bot's turn.
\<close>

theorem bot_policy:
  assumes "wf_board board" "legalColumns board \<noteq> []"
  shows "GetValidMoves board = Some (legalColumns board) \<and>
    (\<exists>col. chooseColumn board foe me (legalColumns board) = Some col \<and>
       col \<in> set (legalColumns board) \<and>
       (if \<exists>c\<in>set (legalColumns board). dropWins board c foe
        then dropWins board col foe \<and>
             (\<forall>c\<in>set (legalColumns board). c < col \<longrightarrow> \<not> dropWins board c foe)
        else if \<exists>c\<in>set (legalColumns board). dropWins board c me
        then dropWins board col me \<and>
             (\<forall>c\<in>set (legalColumns board). c < col \<longrightarrow> \<not> dropWins board c me)
        else \<forall>c\<in>set (legalColumns board).
               dropScore board c me foe \<le> dropScore board col me foe \<and>
               (c < col \<longrightarrow> dropScore board c me foe < dropScore board col me foe))) \<and>
    (\<forall>m (g::Game) notify now.
       Board g = board \<and> Status g = ''active'' \<and> CurrentPlayer g = ''bot'' \<longrightarrow>
       (\<exists>col. chooseColumn board (ID (Player1 g)) ''bot'' (legalColumns board) = Some col \<and>
              Player_MakeMove m g notify now = executeMove m g col notify now))"
proof (intro conjI allI impI)
  show "GetValidMoves board = Some (legalColumns board)"
    using assms(1) by (rule GetValidMoves_wf)
  show "\<exists>col. chooseColumn board foe me (legalColumns board) = Some col \<and>
       col \<in> set (legalColumns board) \<and>
       (if \<exists>c\<in>set (legalColumns board). dropWins board c foe
        then dropWins board col foe \<and>
             (\<forall>c\<in>set (legalColumns board). c < col \<longrightarrow> \<not> dropWins board c foe)
        else if \<exists>c\<in>set (legalColumns board). dropWins board c me
        then dropWins board col me \<and>
             (\<forall>c\<in>set (legalColumns board). c < col \<longrightarrow> \<not> dropWins board c me)
        else \<forall>c\<in>set (legalColumns board).
               dropScore board c me foe \<le> dropScore board col me foe \<and>
               (c < col \<longrightarrow> dropScore board c me foe < dropScore board col me foe))"
    using assms by (rule chooseColumn_policy)
next
  fix m and g :: Game and notify now
  assume g: "Board g = board \<and> Status g = ''active'' \<and> CurrentPlayer g = ''bot''"
  from chooseColumn_policy[OF assms, of "ID (Player1 g)" "''bot''"] obtain col where
    col: "chooseColumn board (ID (Player1 g)) ''bot'' (legalColumns board) = Some col" by blast
  have "Player_MakeMove m g notify now = executeMove m g col notify now"
    using g col assms(2) GetValidMoves_wf[OF assms(1)]
    by (simp add: Player_MakeMove_def)
  with col show "\<exists>col. chooseColumn board (ID (Player1 g)) ''bot'' (legalColumns board) = Some col \<and>
              Player_MakeMove m g notify now = executeMove m g col notify now" by blast
qed

theorem bot_policy_witness:
  "wf_board bobWins \<and> legalColumns bobWins \<noteq> [] \<and>
   dropWins bobWins 1 ''2'' \<and>
   chooseColumn bobWins ''2'' ''bot'' (legalColumns bobWins) = Some 1 \<and>
   chooseColumn bobWins ''x'' ''2'' (legalColumns bobWins) = Some 1 \<and>
   wf_board CreateBoard \<and> legalColumns CreateBoard \<noteq> [] \<and>
   chooseColumn CreateBoard ''1'' ''bot'' (legalColumns CreateBoard) = Some 3 \<and>
   dropScore CreateBoard 0 ''bot'' ''1'' < dropScore CreateBoard 3 ''bot'' ''1'' \<and>
   dropScore CreateBoard 6 ''bot'' ''1'' \<le> dropScore CreateBoard 3 ''bot'' ''1'' \<and>
   Player_MakeMove (NewManager False) (sampleGame\<lparr>Board := CreateBoard, CurrentPlayer := ''bot''\<rparr>)
       True 5
     = executeMove (NewManager False) (sampleGame\<lparr>Board := CreateBoard, CurrentPlayer := ''bot''\<rparr>)
         3 True 5"
proof -
  let ?g = "sampleGame\<lparr>Board := CreateBoard, CurrentPlayer := ''bot''\<rparr>"
  have wf: "wf_board bobWins" "wf_board CreateBoard" by code_simp+
  have ne: "legalColumns bobWins \<noteq> []" "legalColumns CreateBoard \<noteq> []" by code_simp+
  have c1: "chooseColumn bobWins ''2'' ''bot'' (legalColumns bobWins) = Some 1" by code_simp
  have c2: "chooseColumn bobWins ''x'' ''2'' (legalColumns bobWins) = Some 1" by code_simp
  have c3: "chooseColumn CreateBoard ''1'' ''bot'' (legalColumns CreateBoard) = Some 3" by code_simp
  have d1: "dropWins bobWins 1 ''2''" by code_simp
  have m1: "1 \<in> set (legalColumns bobWins)" by code_simp
  have m3: "0 \<in> set (legalColumns CreateBoard)" "6 \<in> set (legalColumns CreateBoard)"
    by code_simp+
  have n2: "\<not> (\<exists>c\<in>set (legalColumns bobWins). dropWins bobWins c ''x'')" by code_simp
  have n3: "\<not> (\<exists>c\<in>set (legalColumns CreateBoard). dropWins CreateBoard c ''1'')"
    "\<not> (\<exists>c\<in>set (legalColumns CreateBoard). dropWins CreateBoard c ''bot'')" by code_simp+
  have g: "Board ?g = CreateBoard \<and> Status ?g = ''active'' \<and> CurrentPlayer ?g = ''bot''"
    "ID (Player1 ?g) = ''1''"
    by (simp_all add: sampleGame_def alice_def)
  from bot_policy[OF wf(1) ne(1), of "''2''" "''bot''"] c1 d1 m1
  have a: "dropWins bobWins 1 ''2''" by auto
  from bot_policy[OF wf(1) ne(1), of "''x''" "''2''"] c2 n2 d1 m1
  have b: "dropWins bobWins 1 ''2''" by auto
  from bot_policy[OF wf(2) ne(2), of "''1''" "''bot''"] c3 n3
  have c: "\<forall>c\<in>set (legalColumns CreateBoard).
      dropScore CreateBoard c ''bot'' ''1'' \<le> dropScore CreateBoard 3 ''bot'' ''1'' \<and>
      (c < 3 \<longrightarrow> dropScore CreateBoard c ''bot'' ''1'' < dropScore CreateBoard 3 ''bot'' ''1'')"
    and p: "\<forall>m (g::Game) notify now.
       Board g = CreateBoard \<and> Status g = ''active'' \<and> CurrentPlayer g = ''bot'' \<longrightarrow>
       (\<exists>col. chooseColumn CreateBoard (ID (Player1 g)) ''bot'' (legalColumns CreateBoard) = Some col \<and>
              Player_MakeMove m g notify now = executeMove m g col notify now)"
    by auto
  from c m3 have s: "dropScore CreateBoard 0 ''bot'' ''1'' < dropScore CreateBoard 3 ''bot'' ''1''"
    "dropScore CreateBoard 6 ''bot'' ''1'' \<le> dropScore CreateBoard 3 ''bot'' ''1''" by auto
  from p g c3 have q: "Player_MakeMove (NewManager False) ?g True 5
     = executeMove (NewManager False) ?g 3 True 5" by fastforce
  from wf ne c1 c2 c3 a s q show ?thesis by simp
qed

end
